theory Spec2Isabelle
  imports Complex_Main "HOL-Library.Sublist"
begin

section \<open>System health logger (main.py): data model\<close>

text \<open>
  The script samples CPU, memory and disk utilisation and the reachability of a host,
  stores every sample as one row of the SQLite table \<^verbatim>\<open>system_log\<close> and prints the
  last rows. The embedding below follows \<^verbatim>\<open>main.py\<close> function by function. Everything
  the script does to the outside (the database file, the standard output, the child process,
  the sleep) is explicit: a \<open>world\<close> holds the table and the list of effects performed so
  far, and every function returns its result, or the exception it raises, with the new world.
\<close>

subsection \<open>Module constants\<close>

definition TABLE_NAME :: string where
  "TABLE_NAME = ''system_log''"

definition PING_HOST :: string where
  "PING_HOST = ''google.com''"

definition SAMPLES :: int where
  "SAMPLES = 5"

definition INTERVAL_SEC :: int where
  "INTERVAL_SEC = 10"

subsection \<open>Exceptions\<close>

text \<open>
  The exceptions the library calls of the script raise. \<open>KeyboardInterrupt\<close> derives from
  \<^verbatim>\<open>BaseException\<close> only; all others derive from \<^verbatim>\<open>Exception\<close>, which is what the
  handler of \<open>ping_status\<close> catches.
\<close>

datatype exn =
    KeyboardInterrupt
  | OperationalError
  | IntegrityError
  | OverflowError
  | CalledProcessError
  | TimeoutExpired
  | FileNotFoundError
  | TypeError
  | ValueError

fun is_Exception :: "exn \<Rightarrow> bool" where
  "is_Exception KeyboardInterrupt = False"
| "is_Exception _ = True"

subsection \<open>Rows and the table\<close>

text \<open>
  A Python value bound to a statement parameter may be \<^verbatim>\<open>None\<close>, which SQLite stores as
  NULL: the five data fields are options. The column \<^verbatim>\<open>id\<close> is the INTEGER PRIMARY KEY
  and is never NULL.
\<close>

type_synonym entry = "string option \<times> real option \<times> real option \<times> real option \<times> string option"

record row =
  row_id :: int
  row_timestamp :: "string option"
  row_cpu :: "real option"
  row_memory :: "real option"
  row_disk :: "real option"
  row_ping_status :: "string option"

text \<open>
  The table \<^verbatim>\<open>system_log\<close>: its rows in insertion order, and the counter that SQLite keeps
  for an AUTOINCREMENT column (the entry of the table in \<^verbatim>\<open>sqlite_sequence\<close>), which is the
  largest id ever assigned.
\<close>

record table =
  rows :: "row list"
  autoinc :: int

definition empty_table :: table where
  "empty_table = \<lparr>rows = [], autoinc = 0\<rparr>"

definition MAX_ROWID :: int where
  "MAX_ROWID = 9223372036854775807"

definition MIN_ROWID :: int where
  "MIN_ROWID = - 9223372036854775808"

subsection \<open>Effects and the world\<close>

datatype printed =
    PInitializing
  | PCollecting int int
  | PLogged int int entry
  | PLastHeader int
  | PNoData
  | PRow row
  | PFailedHeader
  | PNone
  | PInterrupted

datatype sql =
    CreateTableIfNotExists
  | InsertInto entry
  | SelectLast int
  | SelectDown

datatype event =
    Print printed
  | Execute sql
  | Run "string list" int
  | ReadMetrics
  | Sleep int

record world =
  db :: "table option"
  events :: "event list"

definition emit :: "event \<Rightarrow> world \<Rightarrow> world" where
  "emit e w = w\<lparr>events := events w @ [e]\<rparr>"

subsection \<open>The environment\<close>

text \<open>
  What the outside answers. A child process exits with a code, runs into the timeout, cannot
  be launched, or the wait for it is cut by the interrupt signal.

  A tick of the loop reads the clock and the three utilisation figures (psutil is taken to
  answer always), runs the child process, writes to the file and may sleep. The interrupt
  signal is modelled at the two long waits of a tick: the wait for the child process and the
  sleep between two samples. The file can be unwritable (or locked) at the initialisation,
  at an insert and at the report.
\<close>

datatype proc_outcome =
    Exited int
  | TimedOut
  | NotFound
  | Interrupted

record tick_env =
  now :: string
  cpu_percent :: real
  virtual_memory_percent :: real
  disk_usage_percent :: real
  run_outcome :: "string list \<Rightarrow> int \<Rightarrow> proc_outcome"
  db_writable :: bool
  sigint_in_sleep :: bool

record env =
  platform_system :: string
  init_writable :: bool
  tick :: "nat \<Rightarrow> tick_env"
  report_readable :: bool

section \<open>The functions of main.py\<close>

subsection \<open>init_db\<close>

text \<open>
  \<^verbatim>\<open>CREATE TABLE IF NOT EXISTS\<close>: a table that exists is left as it is. When the file
  cannot be opened or written, sqlite3 raises and nothing changes.
\<close>

definition init_db :: "bool \<Rightarrow> world \<Rightarrow> (exn + unit) \<times> world" where
  "init_db writable w =
     (if \<not> writable then (Inl OperationalError, w)
      else
        let w1 = emit (Execute CreateTableIfNotExists) w
        in (Inr (), w1\<lparr>db := (case db w1 of None \<Rightarrow> Some empty_table | Some t \<Rightarrow> Some t)\<rparr>))"

subsection \<open>ping_status\<close>

text \<open>\<^verbatim>\<open>str.lower\<close>, on the ASCII letters that \<^verbatim>\<open>platform.system()\<close> returns.\<close>

definition lower_char :: "char \<Rightarrow> char" where
  "lower_char c =
     (if (65::nat) \<le> of_char c \<and> of_char c \<le> (90::nat)
      then char_of (of_char c + (32::nat)) else c)"

definition lower :: "string \<Rightarrow> string" where
  "lower s = map lower_char s"

text \<open>\<^verbatim>\<open>subprocess.run(..., check=True)\<close>: what the call returns or raises.\<close>

fun subprocess_run :: "proc_outcome \<Rightarrow> exn + unit" where
  "subprocess_run (Exited c) = (if c = 0 then Inr () else Inl CalledProcessError)"
| "subprocess_run TimedOut = Inl TimeoutExpired"
| "subprocess_run NotFound = Inl FileNotFoundError"
| "subprocess_run Interrupted = Inl KeyboardInterrupt"

definition ping_cmd :: "string \<Rightarrow> string \<Rightarrow> string list" where
  "ping_cmd system host =
     (let count_flag = (if lower system = ''windows'' then ''-n'' else ''-c'')
      in [''ping'', count_flag, ''1'', host])"

definition ping_status ::
  "string \<Rightarrow> (string list \<Rightarrow> int \<Rightarrow> proc_outcome) \<Rightarrow> string \<Rightarrow> int \<Rightarrow> world
     \<Rightarrow> (exn + string) \<times> world" where
  "ping_status system outcome host timeout_sec w =
     (let cmd = ping_cmd system host;
          w1 = emit (Run cmd timeout_sec) w
      in case subprocess_run (outcome cmd timeout_sec) of
           Inr _ \<Rightarrow> (Inr ''UP'', w1)
         | Inl e \<Rightarrow> if is_Exception e then (Inr ''DOWN'', w1) else (Inl e, w1))"

subsection \<open>get_system_info\<close>

definition get_system_info :: "string \<Rightarrow> tick_env \<Rightarrow> world \<Rightarrow> (exn + entry) \<times> world" where
  "get_system_info system te w =
     (let ts = now te;
          cpu = cpu_percent te;
          memory = virtual_memory_percent te;
          disk = disk_usage_percent te;
          w1 = emit ReadMetrics w
      in case ping_status system (run_outcome te) PING_HOST 3 w1 of
           (Inl e, w2) \<Rightarrow> (Inl e, w2)
         | (Inr pstat, w2) \<Rightarrow> (Inr (Some ts, Some cpu, Some memory, Some disk, Some pstat), w2))"

subsection \<open>insert_log\<close>

text \<open>
  The id of a new row of an AUTOINCREMENT table: one more than the largest id in the table
  (1 in an empty table), and at least one more than the counter. When the largest id or the
  counter is the largest 64-bit integer, the insert fails (SQLITE_FULL).
\<close>

definition has_null :: "entry \<Rightarrow> bool" where
  "has_null e =
     (case e of (ts, cpu, memory, disk, pstat) \<Rightarrow>
        ts = None \<or> cpu = None \<or> memory = None \<or> disk = None \<or> pstat = None)"

definition mk_row :: "int \<Rightarrow> entry \<Rightarrow> row" where
  "mk_row i e =
     (case e of (ts, cpu, memory, disk, pstat) \<Rightarrow>
        \<lparr>row_id = i, row_timestamp = ts, row_cpu = cpu, row_memory = memory,
         row_disk = disk, row_ping_status = pstat\<rparr>)"

definition largest_id :: "table \<Rightarrow> int" where
  "largest_id t =
     (case rows t of
        [] \<Rightarrow> max 0 (autoinc t)
      | r # rs \<Rightarrow> max (fold max (map row_id rs) (row_id r)) (autoinc t))"

definition insert_log :: "bool \<Rightarrow> entry \<Rightarrow> world \<Rightarrow> (exn + unit) \<times> world" where
  "insert_log writable entry w =
     (if \<not> writable then (Inl OperationalError, w)
      else case db w of
        None \<Rightarrow> (Inl OperationalError, w)
      | Some t \<Rightarrow>
          if largest_id t = MAX_ROWID then (Inl OperationalError, w)
          else if has_null entry then (Inl IntegrityError, w)
          else
            let i = largest_id t + 1;
                w1 = emit (Execute (InsertInto entry)) w
            in (Inr (), w1\<lparr>db := Some \<lparr>rows = rows t @ [mk_row i entry], autoinc = i\<rparr>\<rparr>))"

subsection \<open>show_last_logs\<close>

text \<open>
  \<^verbatim>\<open>ORDER BY id DESC\<close> sorts the rows by id, largest first. \<^verbatim>\<open>LIMIT k\<close> keeps the first
  \<open>k\<close> rows; a negative \<open>k\<close> means no limit in SQLite. The sqlite3 module binds a Python
  integer as a 64-bit integer and raises \<^verbatim>\<open>OverflowError\<close> when it does not fit. A query on
  a table that does not exist raises \<^verbatim>\<open>OperationalError\<close> when the statement is prepared.
\<close>

definition order_by_id_desc :: "row list \<Rightarrow> row list" where
  "order_by_id_desc rs = rev (sort_key row_id rs)"

definition sql_limit :: "int \<Rightarrow> 'a list \<Rightarrow> 'a list" where
  "sql_limit k xs = (if k < 0 then xs else take (nat k) xs)"

text \<open>The first half of \<open>show_last_logs\<close>: connect, execute, \<^verbatim>\<open>fetchall\<close>, close.\<close>

definition fetch_last_logs :: "bool \<Rightarrow> int \<Rightarrow> world \<Rightarrow> (exn + row list) \<times> world" where
  "fetch_last_logs readable limit w =
     (if \<not> readable then (Inl OperationalError, w)
      else case db w of
        None \<Rightarrow> (Inl OperationalError, w)
      | Some t \<Rightarrow>
          if limit < MIN_ROWID \<or> MAX_ROWID < limit then (Inl OverflowError, w)
          else (Inr (sql_limit limit (order_by_id_desc (rows t))),
                emit (Execute (SelectLast limit)) w))"

text \<open>
  The format specification \<^verbatim>\<open>5.1f\<close> raises \<^verbatim>\<open>TypeError\<close> on \<^verbatim>\<open>None\<close>; the id and the two
  texts are formatted whatever they are.
\<close>

definition format_row :: "row \<Rightarrow> exn + printed" where
  "format_row r =
     (if row_cpu r = None \<or> row_memory r = None \<or> row_disk r = None then Inl TypeError
      else Inr (PRow r))"

fun print_rows :: "row list \<Rightarrow> world \<Rightarrow> (exn + unit) \<times> world" where
  "print_rows [] w = (Inr (), w)"
| "print_rows (r # rs) w =
     (case format_row r of
        Inl e \<Rightarrow> (Inl e, w)
      | Inr p \<Rightarrow> print_rows rs (emit (Print p) w))"

definition show_last_logs :: "bool \<Rightarrow> int \<Rightarrow> world \<Rightarrow> (exn + unit) \<times> world" where
  "show_last_logs readable limit w =
     (case fetch_last_logs readable limit w of
        (Inl e, w1) \<Rightarrow> (Inl e, w1)
      | (Inr rs, w1) \<Rightarrow>
          let w2 = emit (Print (PLastHeader limit)) w1
          in if rs = [] then (Inr (), emit (Print PNoData) w2)
             else print_rows rs w2)"

subsection \<open>show_failed_pings\<close>

definition fetch_failed_pings :: "bool \<Rightarrow> world \<Rightarrow> (exn + row list) \<times> world" where
  "fetch_failed_pings readable w =
     (if \<not> readable then (Inl OperationalError, w)
      else case db w of
        None \<Rightarrow> (Inl OperationalError, w)
      | Some t \<Rightarrow>
          (Inr (order_by_id_desc (filter (\<lambda>r. row_ping_status r = Some ''DOWN'') (rows t))),
           emit (Execute SelectDown) w))"

definition show_failed_pings :: "bool \<Rightarrow> world \<Rightarrow> (exn + unit) \<times> world" where
  "show_failed_pings readable w =
     (case fetch_failed_pings readable w of
        (Inl e, w1) \<Rightarrow> (Inl e, w1)
      | (Inr rs, w1) \<Rightarrow>
          let w2 = emit (Print PFailedHeader) w1
          in if rs = [] then (Inr (), emit (Print PNone) w2)
             else print_rows rs w2)"

subsection \<open>main\<close>

text \<open>
  \<^verbatim>\<open>time.sleep\<close> raises \<^verbatim>\<open>ValueError\<close> on a negative length; the interrupt signal cuts a
  sleep with \<^verbatim>\<open>KeyboardInterrupt\<close>.
\<close>

definition time_sleep :: "int \<Rightarrow> bool \<Rightarrow> world \<Rightarrow> (exn + unit) \<times> world" where
  "time_sleep secs sigint w =
     (if secs < 0 then (Inl ValueError, w)
      else if sigint then (Inl KeyboardInterrupt, emit (Sleep secs) w)
      else (Inr (), emit (Sleep secs) w))"

definition format_logged :: "int \<Rightarrow> int \<Rightarrow> entry \<Rightarrow> exn + printed" where
  "format_logged k n entry =
     (case entry of (ts, cpu, memory, disk, pstat) \<Rightarrow>
        if cpu = None \<or> memory = None \<or> disk = None then Inl TypeError
        else Inr (PLogged k n entry))"

text \<open>The body of the \<^verbatim>\<open>for\<close> loop of \<open>main\<close>, for the index \<open>i\<close>.\<close>

definition loop_body :: "int \<Rightarrow> int \<Rightarrow> env \<Rightarrow> nat \<Rightarrow> world \<Rightarrow> (exn + unit) \<times> world" where
  "loop_body n itv e i w =
     (case get_system_info (platform_system e) (tick e i) w of
        (Inl x, w1) \<Rightarrow> (Inl x, w1)
      | (Inr entry, w1) \<Rightarrow>
          (case insert_log (db_writable (tick e i)) entry w1 of
             (Inl x, w2) \<Rightarrow> (Inl x, w2)
           | (Inr _, w2) \<Rightarrow>
               (case format_logged (int i + 1) n entry of
                  Inl x \<Rightarrow> (Inl x, w2)
                | Inr p \<Rightarrow>
                    let w3 = emit (Print p) w2
                    in if int i < n - 1 then time_sleep itv (sigint_in_sleep (tick e i)) w3
                       else (Inr (), w3))))"

fun sampling_loop :: "int \<Rightarrow> int \<Rightarrow> env \<Rightarrow> nat list \<Rightarrow> world \<Rightarrow> (exn + unit) \<times> world" where
  "sampling_loop n itv e [] w = (Inr (), w)"
| "sampling_loop n itv e (i # is) w =
     (case loop_body n itv e i w of
        (Inl x, w1) \<Rightarrow> (Inl x, w1)
      | (Inr _, w1) \<Rightarrow> sampling_loop n itv e is w1)"

text \<open>\<^verbatim>\<open>range(n)\<close>: empty when \<open>n \<le> 0\<close>.\<close>

definition py_range :: "int \<Rightarrow> nat list" where
  "py_range n = [0..<nat n]"

text \<open>
  \<open>main_with\<close> is \<open>main\<close> with the two module constants it reads as parameters;
  \<open>main\<close> is the function of the script.
\<close>

definition main_with :: "int \<Rightarrow> int \<Rightarrow> env \<Rightarrow> world \<Rightarrow> (exn + unit) \<times> world" where
  "main_with n itv e w =
     (let w0 = emit (Print PInitializing) w
      in case init_db (init_writable e) w0 of
           (Inl x, w1) \<Rightarrow> (Inl x, w1)
         | (Inr _, w1) \<Rightarrow>
             (let w2 = emit (Print (PCollecting n itv)) w1
              in (case sampling_loop n itv e (py_range n) w2 of
                    (Inl x, w3) \<Rightarrow> (Inl x, w3)
                  | (Inr _, w3) \<Rightarrow> show_last_logs (report_readable e) 5 w3)))"

definition main :: "env \<Rightarrow> world \<Rightarrow> (exn + unit) \<times> world" where
  "main e w = main_with SAMPLES INTERVAL_SEC e w"

subsection \<open>The script\<close>

text \<open>
  The block under \<^verbatim>\<open>if __name__ == "__main__"\<close>: \<open>Inr ()\<close> is a clean exit, \<open>Inl x\<close> an
  exception that nothing caught, which ends the process with a traceback.
\<close>

definition script_with :: "int \<Rightarrow> int \<Rightarrow> env \<Rightarrow> world \<Rightarrow> (exn + unit) \<times> world" where
  "script_with n itv e w =
     (case main_with n itv e w of
        (Inl x, w1) \<Rightarrow>
          if x = KeyboardInterrupt then (Inr (), emit (Print PInterrupted) w1)
          else (Inl x, w1)
      | (Inr u, w1) \<Rightarrow> (Inr u, w1))"

definition script :: "env \<Rightarrow> world \<Rightarrow> (exn + unit) \<times> world" where
  "script e w = script_with SAMPLES INTERVAL_SEC e w"

section \<open>Notions used to state the properties\<close>

text \<open>The rows the store holds; none when the table does not exist.\<close>

definition stored :: "world \<Rightarrow> row list" where
  "stored w = (case db w of None \<Rightarrow> [] | Some t \<Rightarrow> rows t)"

definition populated :: "row \<Rightarrow> bool" where
  "populated r =
     (row_timestamp r \<noteq> None \<and> row_cpu r \<noteq> None \<and> row_memory r \<noteq> None
      \<and> row_disk r \<noteq> None \<and> row_ping_status r \<noteq> None)"

text \<open>
  A history of the store: inserts by \<open>insert_log\<close>, each with the state of the file at
  that moment and the parameters bound, and removals of rows by their ids. The script has no
  operation that removes a row; \<open>Remove\<close> stands for a \<^verbatim>\<open>DELETE\<close> issued on the file from
  outside, which leaves the AUTOINCREMENT counter as it is. \<open>run_ops\<close> returns the ids the
  inserts were given, in order, and the final world.
\<close>

datatype store_op = Insert bool entry | Remove "int list"

definition delete_rows :: "int list \<Rightarrow> world \<Rightarrow> world" where
  "delete_rows ids w =
     (case db w of
        None \<Rightarrow> w
      | Some t \<Rightarrow> w\<lparr>db := Some (t\<lparr>rows := filter (\<lambda>r. row_id r \<notin> set ids) (rows t)\<rparr>)\<rparr>)"

definition new_ids :: "world \<Rightarrow> world \<Rightarrow> int list" where
  "new_ids w w' = drop (length (stored w)) (map row_id (stored w'))"

fun run_ops :: "store_op list \<Rightarrow> world \<Rightarrow> int list \<times> world" where
  "run_ops [] w = ([], w)"
| "run_ops (Insert writable entry # ops) w =
     (let w1 = snd (insert_log writable entry w);
          r = run_ops ops w1
      in (new_ids w w1 @ fst r, snd r))"
| "run_ops (Remove ids # ops) w = run_ops ops (delete_rows ids w)"

fun is_insert :: "store_op \<Rightarrow> bool" where
  "is_insert (Insert _ _) = True"
| "is_insert (Remove _) = False"

text \<open>
  What tick \<open>i\<close> of the loop is expected to do, in the words of the specification: the
  sample it takes, the effects it performs in order, and the rows \<open>m\<close> ticks add to a
  table whose largest id is \<open>base\<close>.
\<close>

definition expected_status :: "proc_outcome \<Rightarrow> string" where
  "expected_status oc = (if oc = Exited 0 then ''UP'' else ''DOWN'')"

definition tick_entry :: "env \<Rightarrow> nat \<Rightarrow> entry" where
  "tick_entry e i =
     (let te = tick e i
      in (Some (now te), Some (cpu_percent te), Some (virtual_memory_percent te),
          Some (disk_usage_percent te),
          Some (expected_status (run_outcome te (ping_cmd (platform_system e) PING_HOST) 3))))"

definition sampled_events :: "env \<Rightarrow> nat \<Rightarrow> event list" where
  "sampled_events e i = [ReadMetrics, Run (ping_cmd (platform_system e) PING_HOST) 3]"

definition tick_events :: "int \<Rightarrow> int \<Rightarrow> env \<Rightarrow> nat \<Rightarrow> event list" where
  "tick_events n itv e i =
     sampled_events e i
     @ [Execute (InsertInto (tick_entry e i)), Print (PLogged (int i + 1) n (tick_entry e i))]
     @ (if int i + 1 < n then [Sleep itv] else [])"

definition expected_rows :: "env \<Rightarrow> int \<Rightarrow> nat \<Rightarrow> row list" where
  "expected_rows e base m = map (\<lambda>i. mk_row (base + 1 + int i) (tick_entry e i)) [0..<m]"

text \<open>
  A tick in which the sample is taken: the wait for the child process is not cut by the
  interrupt signal. A calm tick, moreover, finds the file writable and is not interrupted in
  its sleep.
\<close>

definition sampled_tick :: "env \<Rightarrow> nat \<Rightarrow> bool" where
  "sampled_tick e i =
     (run_outcome (tick e i) (ping_cmd (platform_system e) PING_HOST) 3 \<noteq> Interrupted)"

definition calm_tick :: "env \<Rightarrow> nat \<Rightarrow> bool" where
  "calm_tick e i =
     (sampled_tick e i \<and> db_writable (tick e i) \<and> \<not> sigint_in_sleep (tick e i))"

text \<open>The largest id of the store: 0 when the table does not exist yet.\<close>

definition top_id :: "world \<Rightarrow> int" where
  "top_id w = (case db w of None \<Rightarrow> 0 | Some t \<Rightarrow> largest_id t)"

text \<open>
  The effects that mark a call of a reporting function: its query, and the header it prints
  first.
\<close>

fun is_report :: "event \<Rightarrow> bool" where
  "is_report (Execute (SelectLast k)) = True"
| "is_report (Execute SelectDown) = True"
| "is_report (Print (PLastHeader k)) = True"
| "is_report (Print PFailedHeader) = True"
| "is_report _ = False"

text \<open>The effects of \<open>main_with\<close> before its loop.\<close>

definition startup_events :: "int \<Rightarrow> int \<Rightarrow> event list" where
  "startup_events n itv =
     [Print PInitializing, Execute CreateTableIfNotExists, Print (PCollecting n itv)]"

text \<open>The world in which the loop of \<open>main_with\<close> starts, when \<open>init_db\<close> could write.\<close>

definition started :: "int \<Rightarrow> int \<Rightarrow> world \<Rightarrow> world" where
  "started n itv w =
     \<lparr>db = Some (case db w of None \<Rightarrow> empty_table | Some t \<Rightarrow> t),
      events = events w @ startup_events n itv\<rparr>"

text \<open>
  \<open>grows w w'\<close>: from \<open>w\<close> to \<open>w'\<close> the store has kept its rows, in place and unchanged,
  every row added is populated, the effects of \<open>w\<close> are still the first effects of \<open>w'\<close>,
  and no reporting function was called in between.
\<close>

definition grows :: "world \<Rightarrow> world \<Rightarrow> bool" where
  "grows w w' =
     (prefix (stored w) (stored w')
      \<and> list_all populated (drop (length (stored w)) (stored w'))
      \<and> prefix (events w) (events w')
      \<and> filter is_report (drop (length (events w)) (events w')) = [])"

section \<open>Example environments\<close>

text \<open>
  A host that answers, a host that does not, and a run on Linux in which nothing fails; a
  file with no table yet and a file with an empty table.
\<close>

definition example_tick :: tick_env where
  "example_tick =
     \<lparr>now = ''2025-11-04 10:00:00'', cpu_percent = 12.5, virtual_memory_percent = 40,
      disk_usage_percent = 71, run_outcome = (\<lambda>_ _. Exited 0), db_writable = True,
      sigint_in_sleep = False\<rparr>"

definition example_env :: env where
  "example_env =
     \<lparr>platform_system = ''Linux'', init_writable = True, tick = (\<lambda>_. example_tick),
      report_readable = True\<rparr>"

definition fresh_world :: world where
  "fresh_world = \<lparr>db = None, events = []\<rparr>"

definition empty_world :: world where
  "empty_world = \<lparr>db = Some empty_table, events = []\<rparr>"

definition down_env :: env where
  "down_env =
     \<lparr>platform_system = ''Linux'', init_writable = True,
      tick = (\<lambda>_. example_tick\<lparr>run_outcome := (\<lambda>_ _. TimedOut)\<rparr>), report_readable = True\<rparr>"

definition one_row_world :: world where
  "one_row_world =
     \<lparr>db = Some \<lparr>rows = [mk_row 1 (tick_entry example_env 0)], autoinc = 1\<rparr>, events = []\<rparr>"

definition mixed_table :: table where
  "mixed_table =
     \<lparr>rows = [mk_row 1 (tick_entry example_env 0), mk_row 2 (tick_entry down_env 1),
              mk_row 3 (tick_entry example_env 2), mk_row 4 (tick_entry down_env 3)],
      autoinc = 4\<rparr>"

definition mixed_world :: world where
  "mixed_world = \<lparr>db = Some mixed_table, events = []\<rparr>"

text \<open>
  A history in which the first row is removed before two more inserts, the middle one of
  three attempts finding the file locked.
\<close>

definition example_ops :: "store_op list" where
  "example_ops =
     [Insert True (tick_entry example_env 0), Remove [1],
      Insert False (tick_entry example_env 1), Insert True (tick_entry down_env 2),
      Insert True (tick_entry example_env 3)]"

text \<open>
  A run in which the interrupt signal arrives in the sleep after the second sample, and a run
  in which the third insert finds the file locked.
\<close>

definition interrupted_env :: env where
  "interrupted_env =
     example_env\<lparr>tick := (\<lambda>i. if i = 1 then example_tick\<lparr>sigint_in_sleep := True\<rparr>
                              else example_tick)\<rparr>"

definition locked_env :: env where
  "locked_env =
     example_env\<lparr>tick := (\<lambda>i. if i = 2 then example_tick\<lparr>db_writable := False\<rparr>
                              else example_tick)\<rparr>"

lemma events_emit: "events (emit ev w) = events w @ [ev]"
  by (simp add: emit_def)

lemma db_emit: "db (emit ev w) = db w"
  by (simp add: emit_def)

lemma stored_emit: "stored (emit ev w) = stored w"
  by (simp add: stored_def db_emit)

lemma ping_status_eq:
  "ping_status system outcome host timeout_sec w =
     ((case subprocess_run (outcome (ping_cmd system host) timeout_sec) of
         Inr _ \<Rightarrow> Inr ''UP''
       | Inl x \<Rightarrow> if is_Exception x then Inr ''DOWN'' else Inl x),
      emit (Run (ping_cmd system host) timeout_sec) w)"
  by (simp add: ping_status_def Let_def split: sum.splits)

lemma probe_expected:
  "oc \<noteq> Interrupted \<Longrightarrow>
   (case subprocess_run oc of
      Inr _ \<Rightarrow> Inr ''UP''
    | Inl x \<Rightarrow> if is_Exception x then Inr ''DOWN'' else Inl x) = Inr (expected_status oc)"
  by (cases oc) (simp_all add: expected_status_def)

lemma get_system_info_sampled:
  assumes "sampled_tick e i"
  shows "get_system_info (platform_system e) (tick e i) w =
           (Inr (tick_entry e i),
            emit (Run (ping_cmd (platform_system e) PING_HOST) 3) (emit ReadMetrics w))"
  using assms
  by (simp add: get_system_info_def ping_status_eq probe_expected sampled_tick_def
      tick_entry_def Let_def)

lemma get_system_info_interrupted:
  assumes "\<not> sampled_tick e i"
  shows "get_system_info (platform_system e) (tick e i) w =
           (Inl KeyboardInterrupt,
            emit (Run (ping_cmd (platform_system e) PING_HOST) 3) (emit ReadMetrics w))"
  using assms
  by (simp add: get_system_info_def ping_status_eq sampled_tick_def Let_def)

lemma has_null_tick_entry: "\<not> has_null (tick_entry e i)"
  by (simp add: has_null_def tick_entry_def Let_def)

lemma format_logged_tick_entry:
  "format_logged k n (tick_entry e i) = Inr (PLogged k n (tick_entry e i))"
  by (simp add: format_logged_def tick_entry_def Let_def)

lemma fold_max_Max: "fold max xs (a::int) = Max (set (a # xs))"
  by (rule Max.set_eq_fold [symmetric])

lemma largest_id_ge_autoinc: "autoinc t \<le> largest_id t"
  by (simp add: largest_id_def split: list.splits)

lemma largest_id_ge_row:
  assumes "r \<in> set (rows t)"
  shows "row_id r \<le> largest_id t"
proof (cases "rows t")
  case Nil
  with assms show ?thesis by simp
next
  case (Cons r0 rs)
  have "row_id r \<in> set (row_id r0 # map row_id rs)"
    using assms Cons by auto
  then have "row_id r \<le> Max (set (row_id r0 # map row_id rs))"
    by (intro Max_ge) simp_all
  then show ?thesis
    by (simp add: largest_id_def Cons fold_max_Max del: set_simps)
qed

lemma largest_id_least:
  assumes "\<forall>r \<in> set (rows t). row_id r \<le> b" and "autoinc t \<le> b"
    and "rows t = [] \<Longrightarrow> 0 \<le> b"
  shows "largest_id t \<le> b"
proof (cases "rows t")
  case Nil
  with assms show ?thesis by (simp add: largest_id_def)
next
  case (Cons r0 rs)
  have "Max (set (row_id r0 # map row_id rs)) \<le> b"
    using assms(1) Cons by (subst Max_le_iff) auto
  then show ?thesis
    using assms(2) by (simp add: largest_id_def Cons fold_max_Max del: set_simps)
qed

lemma row_id_mk_row: "row_id (mk_row i en) = i"
  by (cases en) (simp add: mk_row_def)

lemma largest_id_insert:
  "largest_id \<lparr>rows = rows t @ [mk_row (largest_id t + 1) en], autoinc = largest_id t + 1\<rparr>
     = largest_id t + 1"
proof (rule antisym)
  let ?t' = "\<lparr>rows = rows t @ [mk_row (largest_id t + 1) en], autoinc = largest_id t + 1\<rparr>"
  show "largest_id t + 1 \<le> largest_id ?t'"
    using largest_id_ge_autoinc [of ?t'] by simp
  show "largest_id ?t' \<le> largest_id t + 1"
    by (rule largest_id_least) (auto simp: row_id_mk_row dest: largest_id_ge_row)
qed

lemma insert_log_ok:
  assumes "writable" and "db w = Some t" and "largest_id t \<noteq> MAX_ROWID" and "\<not> has_null en"
  shows "insert_log writable en w =
           (Inr (), (emit (Execute (InsertInto en)) w)
              \<lparr>db := Some \<lparr>rows = rows t @ [mk_row (largest_id t + 1) en],
                            autoinc = largest_id t + 1\<rparr>\<rparr>)"
  using assms by (simp add: insert_log_def Let_def)

lemma insert_log_cases:
  "(\<exists>x. insert_log writable en w = (Inl x, w) \<and> x \<in> {OperationalError, IntegrityError})
   \<or> (\<exists>t. db w = Some t \<and> writable \<and> largest_id t \<noteq> MAX_ROWID \<and> \<not> has_null en \<and>
         insert_log writable en w =
           (Inr (), (emit (Execute (InsertInto en)) w)
              \<lparr>db := Some \<lparr>rows = rows t @ [mk_row (largest_id t + 1) en],
                            autoinc = largest_id t + 1\<rparr>\<rparr>))"
  by (cases "db w") (auto simp: insert_log_def Let_def)

lemma insert_log_unwritable: "insert_log False en w = (Inl OperationalError, w)"
  by (simp add: insert_log_def)

text \<open>One iteration that returns: what it has done.\<close>

lemma loop_body_returns:
  assumes "loop_body n itv e i w = (Inr u, w')"
  shows "sampled_tick e i \<and>
         (\<exists>t. db w = Some t \<and> largest_id t \<noteq> MAX_ROWID \<and>
           w' = \<lparr>db = Some \<lparr>rows = rows t @ [mk_row (largest_id t + 1) (tick_entry e i)],
                             autoinc = largest_id t + 1\<rparr>,
                  events = events w @ tick_events n itv e i\<rparr>)"
proof (cases "sampled_tick e i")
  case False
  with assms show ?thesis
    by (simp add: loop_body_def get_system_info_interrupted)
next
  case True
  let ?w1 = "emit (Run (ping_cmd (platform_system e) PING_HOST) 3) (emit ReadMetrics w)"
  from insert_log_cases [of "db_writable (tick e i)" "tick_entry e i" ?w1]
  show ?thesis
  proof (elim disjE exE conjE)
    fix x assume "insert_log (db_writable (tick e i)) (tick_entry e i) ?w1 = (Inl x, ?w1)"
    with assms True show ?thesis
      by (simp add: loop_body_def get_system_info_sampled)
  next
    fix t
    assume t: "db ?w1 = Some t" "largest_id t \<noteq> MAX_ROWID"
      and ins: "insert_log (db_writable (tick e i)) (tick_entry e i) ?w1 =
           (Inr (), (emit (Execute (InsertInto (tick_entry e i))) ?w1)
              \<lparr>db := Some \<lparr>rows = rows t @ [mk_row (largest_id t + 1) (tick_entry e i)],
                            autoinc = largest_id t + 1\<rparr>\<rparr>)"
    from assms True ins t show ?thesis
      by (auto simp: loop_body_def get_system_info_sampled format_logged_tick_entry Let_def
          time_sleep_def tick_events_def sampled_events_def emit_def split: if_splits)
  qed
qed

lemma loop_body_calm:
  assumes "calm_tick e i" and "db w = Some t" and "largest_id t \<noteq> MAX_ROWID"
    and "int i + 1 < n \<Longrightarrow> 0 \<le> itv"
  shows "fst (loop_body n itv e i w) = Inr ()"
  using assms
  by (auto simp: loop_body_def calm_tick_def get_system_info_sampled insert_log_ok db_emit
      has_null_tick_entry format_logged_tick_entry Let_def time_sleep_def)

lemma sampling_loop_append:
  "sampling_loop n itv e (xs @ ys) w =
     (case sampling_loop n itv e xs w of
        (Inl x, w1) \<Rightarrow> (Inl x, w1)
      | (Inr _, w1) \<Rightarrow> sampling_loop n itv e ys w1)"
  by (induction xs arbitrary: w) (auto split: prod.splits sum.splits)

lemma expected_rows_0: "expected_rows e b 0 = []"
  by (simp add: expected_rows_def)

lemma expected_rows_Suc:
  "expected_rows e b (Suc m) = expected_rows e b m @ [mk_row (b + int m + 1) (tick_entry e m)]"
  by (simp add: expected_rows_def add.commute add.left_commute)

lemma length_expected_rows: "length (expected_rows e b m) = m"
  by (simp add: expected_rows_def)

text \<open>The first \<open>m\<close> iterations, when they all return.\<close>

lemma sampling_loop_returns:
  assumes "sampling_loop n itv e [0..<m] w = (Inr u, w')"
  shows "events w' = events w @ concat (map (tick_events n itv e) [0..<m])
         \<and> (\<forall>i<m. sampled_tick e i)
         \<and> (db w = None \<longrightarrow> m = 0 \<and> db w' = None)
         \<and> (\<forall>t. db w = Some t \<longrightarrow>
              (\<exists>t'. db w' = Some t' \<and> rows t' = rows t @ expected_rows e (largest_id t) m
                    \<and> largest_id t' = largest_id t + int m))"
  using assms
proof (induction m arbitrary: u w')
  case 0
  then show ?case by (simp add: expected_rows_0)
next
  case (Suc m)
  from Suc.prems obtain u1 w1 where
    first: "sampling_loop n itv e [0..<m] w = (Inr u1, w1)" and
    step: "loop_body n itv e m w1 = (Inr u, w')"
    by (auto simp: sampling_loop_append split: prod.splits sum.splits)
  note ih = Suc.IH [OF first]
  from loop_body_returns [OF step] obtain t1 where
    sm: "sampled_tick e m" and t1: "db w1 = Some t1" and
    w': "w' = \<lparr>db = Some \<lparr>rows = rows t1 @ [mk_row (largest_id t1 + 1) (tick_entry e m)],
                             autoinc = largest_id t1 + 1\<rparr>,
                  events = events w1 @ tick_events n itv e m\<rparr>"
    by blast
  have ev: "events w' = events w @ concat (map (tick_events n itv e) [0..<Suc m])"
    using ih w' by simp
  have smp: "\<forall>i<Suc m. sampled_tick e i"
    using ih sm by (auto simp: less_Suc_eq)
  have none: "db w = None \<longrightarrow> Suc m = 0 \<and> db w' = None"
    using ih t1 by auto
  have some: "\<exists>t'. db w' = Some t' \<and> rows t' = rows t @ expected_rows e (largest_id t) (Suc m)
                    \<and> largest_id t' = largest_id t + int (Suc m)" if "db w = Some t" for t
  proof -
    from ih that t1 have r1: "rows t1 = rows t @ expected_rows e (largest_id t) m"
      and l1: "largest_id t1 = largest_id t + int m" by auto
    show ?thesis
      using r1 l1 largest_id_insert [of t1 "tick_entry e m"]
      by (simp add: w' expected_rows_Suc)
  qed
  show ?case using ev smp none some by blast
qed

lemma sampling_loop_calm:
  assumes "\<forall>i<m. calm_tick e i" and "db w = Some t" and "largest_id t + int m \<le> MAX_ROWID"
    and "0 \<le> itv"
  shows "fst (sampling_loop n itv e [0..<m] w) = Inr ()"
  using assms
proof (induction m)
  case 0
  then show ?case by simp
next
  case (Suc m)
  then have "fst (sampling_loop n itv e [0..<m] w) = Inr ()" by simp
  then obtain w1 where first: "sampling_loop n itv e [0..<m] w = (Inr (), w1)"
    by (cases "sampling_loop n itv e [0..<m] w") auto
  from sampling_loop_returns [OF first] Suc.prems(2) obtain t1 where
    t1: "db w1 = Some t1" and l1: "largest_id t1 = largest_id t + int m" by blast
  have "largest_id t1 \<noteq> MAX_ROWID" using l1 Suc.prems(3) by simp
  then have "fst (loop_body n itv e m w1) = Inr ()"
    using Suc.prems by (intro loop_body_calm [OF _ t1]) simp_all
  then show ?case
    using first by (auto simp: sampling_loop_append split: prod.splits sum.splits)
qed

lemma stored_returns:
  assumes "sampling_loop n itv e [0..<m] w = (Inr u, w')"
  shows "stored w' = stored w @ expected_rows e (top_id w) m"
proof (cases "db w")
  case None
  with sampling_loop_returns [OF assms] show ?thesis
    by (simp add: stored_def expected_rows_0)
next
  case (Some t)
  with sampling_loop_returns [OF assms] show ?thesis
    by (auto simp: stored_def top_id_def)
qed

section \<open>The sampling loop\<close>

text \<open>
  Claim C2. For every sample count \<open>n\<close> and interval, a run of the loop of \<open>main\<close> that is
  not cut short (it returns normally) has performed exactly \<open>n\<close> ticks (none when
  \<open>n \<le> 0\<close>): its effects are those of the ticks \<open>0, ..., n - 1\<close> in order, each tick
  reading the metrics and running the probe, then inserting the sample, then printing one
  progress line, and sleeping for the interval only when it is not the last tick; and the store
  holds its former rows followed by exactly \<open>n\<close> new rows, one per tick. Such a run exists:
  when \<open>0 \<le> n\<close>, the interval is not negative, the table exists, the ids are not
  exhausted and no tick is disturbed, the loop returns normally.
\<close>

theorem sampling_loop_ticks:
  "(fst (sampling_loop n itv e (py_range n) w) = Inr () \<longrightarrow>
      events (snd (sampling_loop n itv e (py_range n) w)) =
        events w @ concat (map (tick_events n itv e) [0..<nat n])
      \<and> stored (snd (sampling_loop n itv e (py_range n) w)) =
          stored w @ expected_rows e (top_id w) (nat n)
      \<and> length (stored (snd (sampling_loop n itv e (py_range n) w))) =
          length (stored w) + nat n)
   \<and> (0 \<le> n \<and> 0 \<le> itv \<and> (\<forall>i<nat n. calm_tick e i) \<and> db w \<noteq> None
        \<and> top_id w + n \<le> MAX_ROWID \<longrightarrow>
      fst (sampling_loop n itv e (py_range n) w) = Inr ())"
proof (intro conjI impI)
  assume ok: "fst (sampling_loop n itv e (py_range n) w) = Inr ()"
  then obtain w' where run: "sampling_loop n itv e [0..<nat n] w = (Inr (), w')"
    by (cases "sampling_loop n itv e [0..<nat n] w") (auto simp: py_range_def)
  show "events (snd (sampling_loop n itv e (py_range n) w)) =
        events w @ concat (map (tick_events n itv e) [0..<nat n])"
    using sampling_loop_returns [OF run] by (simp add: py_range_def run)
  show st: "stored (snd (sampling_loop n itv e (py_range n) w)) =
          stored w @ expected_rows e (top_id w) (nat n)"
    using stored_returns [OF run] by (simp add: py_range_def run)
  show "length (stored (snd (sampling_loop n itv e (py_range n) w))) =
          length (stored w) + nat n"
    by (simp add: st length_expected_rows)
next
  assume h: "0 \<le> n \<and> 0 \<le> itv \<and> (\<forall>i<nat n. calm_tick e i) \<and> db w \<noteq> None
        \<and> top_id w + n \<le> MAX_ROWID"
  then obtain t where t: "db w = Some t" by auto
  have "largest_id t + int (nat n) \<le> MAX_ROWID"
    using h t by (simp add: top_id_def)
  then show "fst (sampling_loop n itv e (py_range n) w) = Inr ()"
    using h t by (simp add: py_range_def sampling_loop_calm)
qed

lemma example_calm: "calm_tick example_env i"
  by (simp add: calm_tick_def sampled_tick_def example_env_def example_tick_def)

theorem sampling_loop_ticks_witness:
  "fst (sampling_loop 3 0 example_env (py_range 3) empty_world) = Inr ()
   \<and> map row_id (stored (snd (sampling_loop 3 0 example_env (py_range 3) empty_world))) = [1, 2, 3]
   \<and> events (snd (sampling_loop 3 0 example_env (py_range 3) empty_world)) =
       tick_events 3 0 example_env 0 @ tick_events 3 0 example_env 1 @ tick_events 3 0 example_env 2
   \<and> filter (\<lambda>ev. ev = Sleep 0)
        (events (snd (sampling_loop 3 0 example_env (py_range 3) empty_world))) = [Sleep 0, Sleep 0]"
proof -
  have pre: "0 \<le> (3::int) \<and> 0 \<le> (0::int) \<and> (\<forall>i<nat 3. calm_tick example_env i) \<and> db empty_world \<noteq> None
        \<and> top_id empty_world + 3 \<le> MAX_ROWID"
    by (simp add: example_calm empty_world_def top_id_def empty_table_def largest_id_def MAX_ROWID_def)
  have upt: "[0..<nat 3] = [0, 1, 2]"
    by (simp add: upt_rec)
  have top: "top_id empty_world = 0" "stored empty_world = []" "events empty_world = []"
    by (simp_all add: top_id_def stored_def empty_world_def empty_table_def largest_id_def)
  have rows3: "map row_id (expected_rows example_env 0 (nat 3)) = [1, 2, 3]"
    unfolding expected_rows_def upt by (simp add: row_id_mk_row)
  note inst = sampling_loop_ticks [of 3 0 example_env empty_world]
  from inst pre have ok: "fst (sampling_loop 3 0 example_env (py_range 3) empty_world) = Inr ()"
    by blast
  from inst ok have ev: "events (snd (sampling_loop 3 0 example_env (py_range 3) empty_world)) =
        events empty_world @ concat (map (tick_events 3 0 example_env) [0..<nat 3])"
    and st: "stored (snd (sampling_loop 3 0 example_env (py_range 3) empty_world)) =
          stored empty_world @ expected_rows example_env (top_id empty_world) (nat 3)"
    by blast+
  have ev': "events (snd (sampling_loop 3 0 example_env (py_range 3) empty_world)) =
       tick_events 3 0 example_env 0 @ tick_events 3 0 example_env 1 @ tick_events 3 0 example_env 2"
    unfolding ev upt top by simp
  have st': "map row_id (stored (snd (sampling_loop 3 0 example_env (py_range 3) empty_world))) = [1, 2, 3]"
    unfolding st top using rows3 by simp
  have sl: "filter (\<lambda>ev. ev = Sleep 0)
        (events (snd (sampling_loop 3 0 example_env (py_range 3) empty_world))) = [Sleep 0, Sleep 0]"
    unfolding ev' by (simp add: tick_events_def sampled_events_def)
  show ?thesis
    using ok st' ev' sl by blast
qed

section \<open>The reachability probe\<close>

text \<open>
  Claim C3. For every host and timeout, \<open>ping_status\<close> runs the single-packet ping command
  once and returns \<open>UP\<close> when the command exits with code 0 within the timeout, and \<open>DOWN\<close> when
  it runs into the timeout, exits with another code or cannot be launched. No exception of
  the class \<^verbatim>\<open>Exception\<close> ever reaches the caller. The call adds exactly one \<open>Run\<close> effect,
  the command \<^verbatim>\<open>ping -c 1 host\<close> (\<^verbatim>\<open>-n\<close> on Windows), and leaves the store as it is.
\<close>

theorem ping_status_up_or_down:
  "(outcome (ping_cmd system host) timeout_sec = Exited 0 \<longrightarrow>
      fst (ping_status system outcome host timeout_sec w) = Inr ''UP'')
   \<and> (outcome (ping_cmd system host) timeout_sec = TimedOut \<longrightarrow>
      fst (ping_status system outcome host timeout_sec w) = Inr ''DOWN'')
   \<and> (c \<noteq> 0 \<and> outcome (ping_cmd system host) timeout_sec = Exited c \<longrightarrow>
      fst (ping_status system outcome host timeout_sec w) = Inr ''DOWN'')
   \<and> (outcome (ping_cmd system host) timeout_sec = NotFound \<longrightarrow>
      fst (ping_status system outcome host timeout_sec w) = Inr ''DOWN'')
   \<and> (\<forall>x. is_Exception x \<longrightarrow> fst (ping_status system outcome host timeout_sec w) \<noteq> Inl x)
   \<and> events (snd (ping_status system outcome host timeout_sec w)) =
        events w @ [Run [''ping'', if lower system = ''windows'' then ''-n'' else ''-c'', ''1'', host]
                       timeout_sec]
   \<and> db (snd (ping_status system outcome host timeout_sec w)) = db w"
proof -
  let ?o = "outcome (ping_cmd system host) timeout_sec"
  let ?r = "ping_status system outcome host timeout_sec w"
  have up: "?o = Exited 0 \<longrightarrow> fst ?r = Inr ''UP''"
    by (simp add: ping_status_eq)
  have down: "?o = TimedOut \<longrightarrow> fst ?r = Inr ''DOWN''"
    "c \<noteq> 0 \<and> ?o = Exited c \<longrightarrow> fst ?r = Inr ''DOWN''"
    "?o = NotFound \<longrightarrow> fst ?r = Inr ''DOWN''"
    by (simp_all add: ping_status_eq)
  have never: "\<forall>x. is_Exception x \<longrightarrow> fst ?r \<noteq> Inl x"
  proof (intro allI impI)
    fix x assume "is_Exception x"
    then show "fst ?r \<noteq> Inl x"
      by (cases ?o; cases x) (simp_all add: ping_status_eq)
  qed
  have ev: "events (snd ?r) =
      events w @ [Run [''ping'', if lower system = ''windows'' then ''-n'' else ''-c'', ''1'', host]
                     timeout_sec]"
    by (simp add: ping_status_eq events_emit ping_cmd_def)
  have fr: "db (snd ?r) = db w"
    by (simp add: ping_status_eq db_emit)
  show ?thesis
    using up down never ev fr by blast
qed

theorem ping_status_up_or_down_witness:
  "fst (ping_status ''Linux'' (\<lambda>_ _. Exited 0) ''google.com'' 3 fresh_world) = Inr ''UP''
   \<and> fst (ping_status ''Linux'' (\<lambda>_ _. TimedOut) ''google.com'' 3 fresh_world) = Inr ''DOWN''
   \<and> fst (ping_status ''Linux'' (\<lambda>_ _. Exited 2) ''google.com'' 3 fresh_world) = Inr ''DOWN''
   \<and> fst (ping_status ''Linux'' (\<lambda>_ _. NotFound) ''google.com'' 3 fresh_world) = Inr ''DOWN''
   \<and> events (snd (ping_status ''Windows'' (\<lambda>_ _. NotFound) ''google.com'' 3 fresh_world))
       = [Run [''ping'', ''-n'', ''1'', ''google.com''] 3]"
proof -
  have low: "lower ''Windows'' = ''windows''" by code_simp
  show ?thesis
    using ping_status_up_or_down [where outcome = "\<lambda>_ _. Exited 0" and system = "''Linux''" and host = "''google.com''"
        and timeout_sec = 3 and c = 2 and w = fresh_world]
      ping_status_up_or_down [where outcome = "\<lambda>_ _. TimedOut" and system = "''Linux''" and host = "''google.com''"
        and timeout_sec = 3 and c = 2 and w = fresh_world]
      ping_status_up_or_down [where outcome = "\<lambda>_ _. Exited 2" and system = "''Linux''" and host = "''google.com''"
        and timeout_sec = 3 and c = 2 and w = fresh_world]
      ping_status_up_or_down [where outcome = "\<lambda>_ _. NotFound" and system = "''Linux''" and host = "''google.com''"
        and timeout_sec = 3 and c = 2 and w = fresh_world]
      ping_status_up_or_down [where outcome = "\<lambda>_ _. NotFound" and system = "''Windows''" and host = "''google.com''"
        and timeout_sec = 3 and c = 2 and w = fresh_world]
    by (simp add: low fresh_world_def)
qed

section \<open>Schema initialisation\<close>

text \<open>
  Claim C7. \<open>init_db\<close> is idempotent. A call that can write returns normally and leaves
  the one table of the store: the table that was there, with its rows and its counter, or an
  empty table when there was none. A second call right after it, whether it can write or not,
  changes nothing in the store; and no call removes or changes a row of a table that exists.
  (The store of the model holds at most one table \<^verbatim>\<open>system_log\<close>, with the six columns of
  \<open>row\<close>.)
\<close>

theorem init_db_idempotent:
  "fst (init_db True w) = Inr ()
   \<and> db (snd (init_db True w)) = Some (case db w of None \<Rightarrow> empty_table | Some t \<Rightarrow> t)
   \<and> db (snd (init_db again (snd (init_db True w)))) = db (snd (init_db True w))
   \<and> db (snd (init_db again (w\<lparr>db := Some t\<rparr>))) = Some t"
  by (simp add: init_db_def Let_def db_emit split: option.splits)

theorem init_db_idempotent_witness:
  "db (snd (init_db True (snd (init_db True fresh_world)))) = Some empty_table
   \<and> db (snd (init_db True fresh_world)) = Some empty_table
   \<and> db (snd (init_db True (snd (init_db True
        (fresh_world\<lparr>db := Some \<lparr>rows = [mk_row 7 (tick_entry example_env 0)], autoinc = 9\<rparr>\<rparr>)))))
       = Some \<lparr>rows = [mk_row 7 (tick_entry example_env 0)], autoinc = 9\<rparr>"
  using init_db_idempotent [of fresh_world True]
    init_db_idempotent [of "fresh_world\<lparr>db := Some \<lparr>rows = [mk_row 7 (tick_entry example_env 0)], autoinc = 9\<rparr>\<rparr>" True]
  by (simp add: fresh_world_def)

lemma set_order_by_id_desc: "set (order_by_id_desc rs) = set rs"
  by (simp add: order_by_id_desc_def)

lemma length_order_by_id_desc: "length (order_by_id_desc rs) = length rs"
  by (simp add: order_by_id_desc_def)

lemma order_by_id_desc_Nil: "order_by_id_desc [] = []"
  by (simp add: order_by_id_desc_def)

lemma strict_desc_order_by_id_desc:
  assumes "distinct (map row_id rs)"
  shows "sorted_wrt (>) (map row_id (order_by_id_desc rs))"
proof -
  have "sorted (map row_id (sort_key row_id rs))"
    by (rule sorted_sort_key)
  moreover have "distinct (map row_id (sort_key row_id rs))"
    using assms by (simp add: distinct_map inj_on_def)
  ultimately have "sorted_wrt (<) (map row_id (sort_key row_id rs))"
    by (simp add: strict_sorted_iff)
  then show ?thesis
    by (simp add: order_by_id_desc_def rev_map [symmetric] sorted_wrt_rev)
qed

lemma filter_order_by_id_desc:
  "filter P (order_by_id_desc rs) = order_by_id_desc (filter P rs)"
  by (simp add: order_by_id_desc_def rev_filter [symmetric] filter_sort)

lemma length_sql_limit:
  "length (sql_limit k xs) = (if k < 0 then length xs else min (nat k) (length xs))"
  by (simp add: sql_limit_def min.commute)

lemma set_sql_limit: "set (sql_limit k xs) \<subseteq> set xs"
  by (auto simp: sql_limit_def dest: in_set_takeD)

lemma sorted_wrt_sql_limit: "sorted_wrt P xs \<Longrightarrow> sorted_wrt P (sql_limit k xs)"
  by (simp add: sql_limit_def sorted_wrt_take)

text \<open>The rows a limit cuts off come after the rows it keeps.\<close>

lemma sql_limit_keeps_first:
  assumes "sorted_wrt P xs" and "distinct xs" and "x \<in> set xs" and "x \<notin> set (sql_limit k xs)"
    and "y \<in> set (sql_limit k xs)"
  shows "P y x"
proof (cases "k < 0")
  case True
  with assms show ?thesis by (simp add: sql_limit_def)
next
  case False
  have "sorted_wrt P (take (nat k) xs @ drop (nat k) xs)"
    using assms(1) by simp
  moreover have "x \<in> set (drop (nat k) xs)"
    using assms(3,4) False
    by (metis Un_iff append_take_drop_id set_append sql_limit_def)
  moreover have "y \<in> set (take (nat k) xs)"
    using assms(5) False by (simp add: sql_limit_def)
  ultimately show ?thesis
    unfolding sorted_wrt_append by blast
qed

lemma fetch_last_logs_ok:
  assumes "db w = Some t" and "MIN_ROWID \<le> k" and "k \<le> MAX_ROWID"
  shows "fetch_last_logs True k w =
           (Inr (sql_limit k (order_by_id_desc (rows t))), emit (Execute (SelectLast k)) w)"
  using assms by (simp add: fetch_last_logs_def)

lemma fetch_failed_pings_ok:
  assumes "db w = Some t"
  shows "fetch_failed_pings True w =
           (Inr (order_by_id_desc (filter (\<lambda>r. row_ping_status r = Some ''DOWN'') (rows t))),
            emit (Execute SelectDown) w)"
  using assms by (simp add: fetch_failed_pings_def)

section \<open>The recent-entries query\<close>

text \<open>
  Claim C1, as amended. For every store whose table exists (its ids distinct, as the primary
  key makes them) and every limit \<open>k\<close> that fits a 64-bit integer, the query of
  \<open>show_last_logs\<close> returns rows of the table in strictly descending id order, and every row
  it leaves out has a smaller id than every row it returns. For \<open>0 \<le> k\<close> it returns
  \<open>min k total\<close> rows; for \<open>k = 0\<close> and for an empty table it returns no row, and no error.
  For \<open>k < 0\<close> it returns all rows of the table: a negative LIMIT is no limit.
\<close>

theorem fetch_last_logs_recent:
  assumes "db w = Some t" and "distinct (map row_id (rows t))"
    and "MIN_ROWID \<le> k" and "k \<le> MAX_ROWID"
  shows "\<exists>rs. fetch_last_logs True k w = (Inr rs, emit (Execute (SelectLast k)) w)
           \<and> sorted_wrt (>) (map row_id rs)
           \<and> set rs \<subseteq> set (rows t)
           \<and> (\<forall>r \<in> set (rows t). r \<notin> set rs \<longrightarrow> (\<forall>r' \<in> set rs. row_id r < row_id r'))
           \<and> (0 \<le> k \<longrightarrow> length rs = min (nat k) (length (rows t)))
           \<and> (k = 0 \<or> rows t = [] \<longrightarrow> rs = [])
           \<and> (k < 0 \<longrightarrow> length rs = length (rows t) \<and> set rs = set (rows t))"
proof -
  let ?all = "order_by_id_desc (rows t)"
  let ?rs = "sql_limit k ?all"
  have desc: "sorted_wrt (>) (map row_id ?all)"
    using assms(2) by (rule strict_desc_order_by_id_desc)
  have desc': "sorted_wrt (\<lambda>r r'. row_id r > row_id r') ?all"
    using desc by (simp add: sorted_wrt_map)
  have dist: "distinct ?all"
    using assms(2) by (simp add: order_by_id_desc_def distinct_map)
  have 1: "sorted_wrt (>) (map row_id ?rs)"
    using sorted_wrt_sql_limit [OF desc'] by (simp add: sorted_wrt_map)
  have 2: "set ?rs \<subseteq> set (rows t)"
    using set_sql_limit [of k ?all] by (simp add: set_order_by_id_desc)
  have 3: "\<forall>r \<in> set (rows t). r \<notin> set ?rs \<longrightarrow> (\<forall>r' \<in> set ?rs. row_id r < row_id r')"
    using sql_limit_keeps_first [OF desc' dist] by (auto simp: set_order_by_id_desc)
  have 4: "0 \<le> k \<longrightarrow> length ?rs = min (nat k) (length (rows t))"
    by (simp add: length_sql_limit length_order_by_id_desc)
  have 5: "k = 0 \<or> rows t = [] \<longrightarrow> ?rs = []"
    by (auto simp: sql_limit_def order_by_id_desc_Nil)
  have 6: "k < 0 \<longrightarrow> length ?rs = length (rows t) \<and> set ?rs = set (rows t)"
    by (simp add: sql_limit_def length_order_by_id_desc set_order_by_id_desc)
  show ?thesis
    using fetch_last_logs_ok [OF assms(1,3,4)] 1 2 3 4 5 6 by blast
qed

lemma mixed_ids: "map row_id (rows mixed_table) = [1, 2, 3, 4]"
  by (simp add: mixed_table_def row_id_mk_row)

lemma mixed_sorted: "map row_id (order_by_id_desc (rows mixed_table)) = [4, 3, 2, 1]"
  by (simp add: mixed_table_def order_by_id_desc_def row_id_mk_row)

theorem fetch_last_logs_recent_witness:
  "db mixed_world = Some mixed_table \<and> distinct (map row_id (rows mixed_table))
   \<and> MIN_ROWID \<le> 2 \<and> 2 \<le> MAX_ROWID
   \<and> (\<exists>rs. fst (fetch_last_logs True 2 mixed_world) = Inr rs \<and> map row_id rs = [4, 3]
         \<and> sorted_wrt (>) (map row_id rs) \<and> length rs = min (nat 2) (length (rows mixed_table)))"
proof -
  have pre: "db mixed_world = Some mixed_table" "distinct (map row_id (rows mixed_table))"
    "MIN_ROWID \<le> 2" "2 \<le> MAX_ROWID"
    by (simp_all add: mixed_world_def mixed_ids MIN_ROWID_def MAX_ROWID_def)
  from fetch_last_logs_recent [OF pre] obtain rs where
    rs: "fetch_last_logs True 2 mixed_world = (Inr rs, emit (Execute (SelectLast 2)) mixed_world)"
    and desc: "sorted_wrt (>) (map row_id rs)"
    and len: "length rs = min (nat 2) (length (rows mixed_table))"
    by auto
  have "fetch_last_logs True 2 mixed_world =
      (Inr (sql_limit 2 (order_by_id_desc (rows mixed_table))), emit (Execute (SelectLast 2)) mixed_world)"
    using pre by (intro fetch_last_logs_ok) simp_all
  with rs have "rs = sql_limit 2 (order_by_id_desc (rows mixed_table))" by simp
  then have "map row_id rs = [4, 3]"
    by (simp add: sql_limit_def take_map [symmetric] mixed_sorted)
  with rs desc len pre show ?thesis by simp
qed

text \<open>
  The claim as first stated, an empty result of length \<open>min k total\<close> for every \<open>k \<le> 0\<close>,
  fails on a negative limit: with the limit \<open>- 1\<close> and one stored row the query returns that
  row.
\<close>

theorem fetch_last_logs_negative_limit_counterexample:
  "fst (fetch_last_logs True (- 1) one_row_world) = Inr [mk_row 1 (tick_entry example_env 0)]
   \<and> fst (fetch_last_logs True (- 1) one_row_world) \<noteq> Inr []
   \<and> int (length (stored one_row_world)) = 1
   \<and> min (- 1) (int (length (stored one_row_world))) = - 1"
  by (simp add: fetch_last_logs_def one_row_world_def MIN_ROWID_def MAX_ROWID_def sql_limit_def
      order_by_id_desc_def stored_def)

section \<open>The failed-ping query\<close>

text \<open>
  Claim C8. For every store whose table exists (its ids distinct), the query of
  \<open>show_failed_pings\<close> returns exactly the rows whose \<open>ping_status\<close> is the text \<open>DOWN\<close>,
  in strictly descending id order. It is what remains of the result of the recent-entries
  query without a bound (a negative limit, or one that is at least the number of rows) when
  the rows with another status are dropped, and so a subset of it.
\<close>

theorem fetch_failed_pings_down:
  assumes "db w = Some t" and "distinct (map row_id (rows t))"
  shows "\<exists>rs. fetch_failed_pings True w = (Inr rs, emit (Execute SelectDown) w)
           \<and> set rs = {r \<in> set (rows t). row_ping_status r = Some ''DOWN''}
           \<and> length rs = length (filter (\<lambda>r. row_ping_status r = Some ''DOWN'') (rows t))
           \<and> sorted_wrt (>) (map row_id rs)
           \<and> (\<forall>k. MIN_ROWID \<le> k \<and> k \<le> MAX_ROWID \<and> (k < 0 \<or> int (length (rows t)) \<le> k) \<longrightarrow>
                (\<exists>full. fst (fetch_last_logs True k w) = Inr full
                   \<and> rs = filter (\<lambda>r. row_ping_status r = Some ''DOWN'') full
                   \<and> set rs \<subseteq> set full))"
proof -
  let ?P = "\<lambda>r. row_ping_status r = Some ''DOWN''"
  let ?rs = "order_by_id_desc (filter ?P (rows t))"
  have 1: "set ?rs = {r \<in> set (rows t). ?P r}"
    by (simp add: set_order_by_id_desc)
  have 2: "length ?rs = length (filter ?P (rows t))"
    by (simp add: length_order_by_id_desc)
  have "distinct (map row_id (filter ?P (rows t)))"
    using assms(2) by (rule distinct_map_filter)
  then have 3: "sorted_wrt (>) (map row_id ?rs)"
    by (rule strict_desc_order_by_id_desc)
  have 4: "\<exists>full. fst (fetch_last_logs True k w) = Inr full \<and> ?rs = filter ?P full
             \<and> set ?rs \<subseteq> set full"
    if k: "MIN_ROWID \<le> k \<and> k \<le> MAX_ROWID \<and> (k < 0 \<or> int (length (rows t)) \<le> k)" for k
  proof -
    have "sql_limit k (order_by_id_desc (rows t)) = order_by_id_desc (rows t)"
      using k by (auto simp: sql_limit_def length_order_by_id_desc)
    then have "fst (fetch_last_logs True k w) = Inr (order_by_id_desc (rows t))"
      using k fetch_last_logs_ok [OF assms(1), of k] by simp
    moreover have "?rs = filter ?P (order_by_id_desc (rows t))"
      by (simp add: filter_order_by_id_desc)
    ultimately show ?thesis
      by (metis filter_is_subset)
  qed
  show ?thesis
    using fetch_failed_pings_ok [OF assms(1)] 1 2 3 4 by blast
qed

theorem fetch_failed_pings_down_witness:
  "db mixed_world = Some mixed_table \<and> distinct (map row_id (rows mixed_table))
   \<and> (\<exists>rs. fst (fetch_failed_pings True mixed_world) = Inr rs \<and> map row_id rs = [4, 2]
         \<and> sorted_wrt (>) (map row_id rs)
         \<and> set rs = {r \<in> set (rows mixed_table). row_ping_status r = Some ''DOWN''})"
proof -
  have pre: "db mixed_world = Some mixed_table" "distinct (map row_id (rows mixed_table))"
    by (simp_all add: mixed_world_def mixed_ids)
  from fetch_failed_pings_down [OF pre] obtain rs where
    rs: "fetch_failed_pings True mixed_world = (Inr rs, emit (Execute SelectDown) mixed_world)"
    and set: "set rs = {r \<in> set (rows mixed_table). row_ping_status r = Some ''DOWN''}"
    and desc: "sorted_wrt (>) (map row_id rs)"
    by auto
  have "fetch_failed_pings True mixed_world =
      (Inr (order_by_id_desc (filter (\<lambda>r. row_ping_status r = Some ''DOWN'') (rows mixed_table))),
       emit (Execute SelectDown) mixed_world)"
    using pre(1) by (rule fetch_failed_pings_ok)
  with rs have "rs = order_by_id_desc (filter (\<lambda>r. row_ping_status r = Some ''DOWN'') (rows mixed_table))"
    by simp
  then have "map row_id rs = [4, 2]"
    by (simp add: mixed_table_def order_by_id_desc_def mk_row_def tick_entry_def Let_def
        expected_status_def example_env_def down_env_def example_tick_def)
  with rs set desc pre show ?thesis by simp
qed

lemma new_ids_same: "new_ids w w = []"
  by (simp add: new_ids_def)

lemma insert_log_step:
  "(snd (insert_log writable en w) = w \<and> fst (insert_log writable en w) \<noteq> Inr ())
   \<or> (\<exists>t. db w = Some t \<and> fst (insert_log writable en w) = Inr () \<and>
         db (snd (insert_log writable en w)) =
           Some \<lparr>rows = rows t @ [mk_row (largest_id t + 1) en], autoinc = largest_id t + 1\<rparr>)"
  using insert_log_cases [of writable en w] by (auto simp: db_emit)

lemma new_ids_insert:
  assumes "db w = Some t"
    and "db w1 = Some \<lparr>rows = rows t @ [mk_row (largest_id t + 1) en], autoinc = largest_id t + 1\<rparr>"
  shows "new_ids w w1 = [largest_id t + 1]"
  using assms by (simp add: new_ids_def stored_def row_id_mk_row)

lemma db_delete_rows:
  "db (delete_rows ids w) =
     (case db w of None \<Rightarrow> None
      | Some t \<Rightarrow> Some (t\<lparr>rows := filter (\<lambda>r. row_id r \<notin> set ids) (rows t)\<rparr>))"
  by (simp add: delete_rows_def split: option.splits)

text \<open>Every id a history assigns is beyond the counter it starts from, and they increase.\<close>

lemma run_ops_increasing:
  "sorted_wrt (<) (fst (run_ops ops w))
   \<and> (\<forall>t. db w = Some t \<longrightarrow> (\<forall>i \<in> set (fst (run_ops ops w)). autoinc t < i))"
proof (induction ops arbitrary: w)
  case Nil
  show ?case by simp
next
  case (Cons op ops)
  show ?case
  proof (cases op)
    case (Remove ids)
    show ?thesis
      using Cons.IH [of "delete_rows ids w"]
      by (auto simp: Remove db_delete_rows)
  next
    case (Insert writable en)
    let ?w1 = "snd (insert_log writable en w)"
    from insert_log_step [of writable en w] show ?thesis
    proof (elim disjE exE conjE)
      assume "?w1 = w"
      then show ?thesis
        using Cons.IH [of w] by (simp add: Insert Let_def new_ids_same)
    next
      fix t
      assume t: "db w = Some t"
        and w1: "db ?w1 = Some \<lparr>rows = rows t @ [mk_row (largest_id t + 1) en],
                                  autoinc = largest_id t + 1\<rparr>"
      have ids: "fst (run_ops (op # ops) w) = (largest_id t + 1) # fst (run_ops ops ?w1)"
        by (simp add: Insert Let_def new_ids_insert [OF t w1])
      have later: "\<forall>i \<in> set (fst (run_ops ops ?w1)). largest_id t + 1 < i"
        using Cons.IH [of ?w1] w1 by simp
      have "autoinc t < largest_id t + 1"
        using largest_id_ge_autoinc [of t] by simp
      then show ?thesis
        using Cons.IH [of ?w1] later t unfolding ids by fastforce
    qed
  qed
qed

lemma next_id_fresh: "largest_id t + 1 \<notin> row_id ` set (rows t)"
proof
  assume "largest_id t + 1 \<in> row_id ` set (rows t)"
  then obtain r where "r \<in> set (rows t)" and "row_id r = largest_id t + 1" by auto
  with largest_id_ge_row [of r t] show False by simp
qed

lemma run_ops_distinct_table:
  "distinct (map row_id (stored w)) \<Longrightarrow> distinct (map row_id (stored (snd (run_ops ops w))))"
proof (induction ops arbitrary: w)
  case Nil
  then show ?case by simp
next
  case (Cons op ops)
  show ?case
  proof (cases op)
    case (Remove ids)
    have "distinct (map row_id (stored (delete_rows ids w)))"
      using Cons.prems
      by (auto simp: stored_def db_delete_rows distinct_map_filter split: option.splits)
    then show ?thesis
      using Cons.IH [of "delete_rows ids w"] by (simp add: Remove)
  next
    case (Insert writable en)
    let ?w1 = "snd (insert_log writable en w)"
    have "distinct (map row_id (stored ?w1))"
      using insert_log_step [of writable en w] Cons.prems
      using next_id_fresh by (auto simp: stored_def row_id_mk_row)
    then show ?thesis
      using Cons.IH [of ?w1] by (simp add: Insert Let_def)
  qed
qed

text \<open>Inserts alone append: the ids of the table are its former ids and the new ones.\<close>

lemma run_ops_inserts:
  "list_all is_insert ops \<Longrightarrow>
   map row_id (stored (snd (run_ops ops w))) = map row_id (stored w) @ fst (run_ops ops w)
   \<and> (\<forall>t. db w = Some t \<longrightarrow> (\<forall>i \<in> set (fst (run_ops ops w)). largest_id t < i))"
proof (induction ops arbitrary: w)
  case Nil
  show ?case by simp
next
  case (Cons op ops)
  then obtain writable en where op: "op = Insert writable en"
    by (cases op) auto
  let ?w1 = "snd (insert_log writable en w)"
  from Cons.prems have rest: "list_all is_insert ops" by simp
  from insert_log_step [of writable en w] show ?case
  proof (elim disjE exE conjE)
    assume "?w1 = w"
    then show ?thesis
      using Cons.IH [OF rest, of w] by (simp add: op Let_def new_ids_same)
  next
    fix t
    assume t: "db w = Some t"
      and w1: "db ?w1 = Some \<lparr>rows = rows t @ [mk_row (largest_id t + 1) en],
                                autoinc = largest_id t + 1\<rparr>"
    have ids: "fst (run_ops (op # ops) w) = (largest_id t + 1) # fst (run_ops ops ?w1)"
      by (simp add: op Let_def new_ids_insert [OF t w1])
    have fin: "snd (run_ops (op # ops) w) = snd (run_ops ops ?w1)"
      by (simp add: op Let_def)
    have st1: "stored ?w1 = stored w @ [mk_row (largest_id t + 1) en]"
      using t w1 by (simp add: stored_def)
    have l1: "\<forall>i \<in> set (fst (run_ops ops ?w1)). largest_id t + 1 < i"
      using Cons.IH [OF rest, of ?w1] w1 by (simp add: largest_id_insert)
    show ?thesis
      using Cons.IH [OF rest, of ?w1] l1 t
      unfolding ids fin st1 by (fastforce simp: row_id_mk_row)
  qed
qed

lemma run_ops_inserts_sorted:
  assumes "list_all is_insert ops" and "sorted_wrt (<) (map row_id (stored w))"
  shows "sorted_wrt (<) (map row_id (stored (snd (run_ops ops w))))"
proof (cases "db w")
  case None
  with run_ops_inserts [OF assms(1), of w] run_ops_increasing [of ops w]
  show ?thesis by (simp add: stored_def)
next
  case (Some t)
  have "\<forall>x \<in> set (map row_id (stored w)). \<forall>i \<in> set (fst (run_ops ops w)). x < i"
    using run_ops_inserts [OF assms(1), of w] Some
    by (fastforce simp: stored_def dest: largest_id_ge_row)
  then show ?thesis
    using run_ops_inserts [OF assms(1), of w] run_ops_increasing [of ops w] assms(2)
    by (simp add: sorted_wrt_append)
qed

section \<open>The ids of the store\<close>

text \<open>
  Claim C4. For every history of the store (inserts, some of which may fail, with removals
  of any rows in between) the ids that \<open>insert_log\<close> lets the store assign are strictly
  increasing in insertion order, hence pairwise different and never one assigned before,
  whatever rows were removed meanwhile; each is beyond the AUTOINCREMENT counter of the table
  the history starts from. The ids of the table stay distinct, and when nothing is removed
  the ids of the table are its former ids followed by the new ones, in strictly increasing
  order if the former were.
\<close>

theorem autoincrement_ids_increase:
  "sorted_wrt (<) (fst (run_ops ops w))
   \<and> distinct (fst (run_ops ops w))
   \<and> (\<forall>t. db w = Some t \<longrightarrow> (\<forall>i \<in> set (fst (run_ops ops w)). autoinc t < i))
   \<and> (distinct (map row_id (stored w)) \<longrightarrow>
        distinct (map row_id (stored (snd (run_ops ops w)))))
   \<and> (list_all is_insert ops \<longrightarrow>
        map row_id (stored (snd (run_ops ops w))) = map row_id (stored w) @ fst (run_ops ops w))
   \<and> (list_all is_insert ops \<and> sorted_wrt (<) (map row_id (stored w)) \<longrightarrow>
        sorted_wrt (<) (map row_id (stored (snd (run_ops ops w)))))"
proof -
  have inc: "sorted_wrt (<) (fst (run_ops ops w))"
    using run_ops_increasing [of ops w] by blast
  then have "distinct (fst (run_ops ops w))"
    by (simp add: strict_sorted_iff)
  then show ?thesis
    using inc run_ops_increasing [of ops w] run_ops_distinct_table [of w ops]
      run_ops_inserts [of ops w] run_ops_inserts_sorted [of ops w]
    by blast
qed

lemma example_ops_run:
  "fst (run_ops example_ops empty_world) = [1, 2, 3]"
  "map row_id (stored (snd (run_ops example_ops empty_world))) = [2, 3]"
  by (simp_all add: example_ops_def empty_world_def empty_table_def insert_log_def Let_def
      largest_id_def MAX_ROWID_def has_null_tick_entry new_ids_def stored_def emit_def
      delete_rows_def row_id_mk_row)

theorem autoincrement_ids_increase_witness:
  "fst (run_ops example_ops empty_world) = [1, 2, 3]
   \<and> sorted_wrt (<) (fst (run_ops example_ops empty_world))
   \<and> distinct (map row_id (stored empty_world))
   \<and> distinct (map row_id (stored (snd (run_ops example_ops empty_world))))
   \<and> map row_id (stored (snd (run_ops example_ops empty_world))) = [2, 3]
   \<and> list_all is_insert (tl (tl example_ops))
   \<and> map row_id (stored (snd (run_ops (tl (tl example_ops)) one_row_world))) =
       map row_id (stored one_row_world) @ fst (run_ops (tl (tl example_ops)) one_row_world)"
proof -
  have d0: "distinct (map row_id (stored empty_world))"
    by (simp add: stored_def empty_world_def empty_table_def)
  have ins: "list_all is_insert (tl (tl example_ops))"
    by (simp add: example_ops_def)
  show ?thesis
    using autoincrement_ids_increase [of example_ops empty_world]
      autoincrement_ids_increase [of "tl (tl example_ops)" one_row_world] d0 ins
    by (simp add: example_ops_run)
qed

lemma growsI:
  assumes "stored w' = stored w @ new" and "list_all populated new"
    and "events w' = events w @ evs" and "filter is_report evs = []"
  shows "grows w w'"
  using assms by (simp add: grows_def)

lemma growsE:
  assumes "grows w w'"
  obtains new evs where "stored w' = stored w @ new" and "list_all populated new"
    and "events w' = events w @ evs" and "filter is_report evs = []"
proof -
  from assms obtain new evs where "stored w' = stored w @ new" "events w' = events w @ evs"
    by (auto simp: grows_def prefix_def)
  moreover from this assms have "list_all populated new" "filter is_report evs = []"
    by (simp_all add: grows_def)
  ultimately show thesis using that by blast
qed

lemma grows_refl: "grows w w"
  by (rule growsI [of _ _ "[]" "[]"]) simp_all

lemma grows_trans:
  assumes "grows w w1" and "grows w1 w2"
  shows "grows w w2"
proof -
  from assms(1) obtain new evs where 1: "stored w1 = stored w @ new" "list_all populated new"
    "events w1 = events w @ evs" "filter is_report evs = []"
    by (rule growsE)
  from assms(2) obtain new' evs' where 2: "stored w2 = stored w1 @ new'" "list_all populated new'"
    "events w2 = events w1 @ evs'" "filter is_report evs' = []"
    by (rule growsE)
  show ?thesis
    by (rule growsI [of _ _ "new @ new'" "evs @ evs'"]) (simp_all add: 1 2)
qed

lemma grows_emit: "\<not> is_report ev \<Longrightarrow> grows w (emit ev w)"
  by (rule growsI [of _ _ "[]" "[ev]"]) (simp_all add: stored_emit events_emit)

lemma grows_emit_after: "grows w w1 \<Longrightarrow> \<not> is_report ev \<Longrightarrow> grows w (emit ev w1)"
  by (blast intro: grows_trans grows_emit)

lemma populated_mk_row: "\<not> has_null en \<Longrightarrow> populated (mk_row i en)"
  by (cases en) (simp add: populated_def mk_row_def has_null_def)

lemma grows_init_db: "grows w (snd (init_db b w))"
proof (cases b)
  case False
  then show ?thesis by (simp add: init_db_def grows_refl)
next
  case True
  have "stored (snd (init_db True w)) = stored w"
    by (simp add: init_db_def Let_def stored_def db_emit empty_table_def split: option.splits)
  moreover have "events (snd (init_db True w)) = events w @ [Execute CreateTableIfNotExists]"
    by (simp add: init_db_def Let_def events_emit)
  ultimately show ?thesis
    using True by (intro growsI [of _ _ "[]" "[Execute CreateTableIfNotExists]"]) simp_all
qed

lemma grows_ping_status: "grows w (snd (ping_status system outcome host timeout_sec w))"
  by (simp add: ping_status_eq grows_emit)

lemma grows_get_system_info: "grows w (snd (get_system_info system te w))"
proof -
  have "grows w (emit ReadMetrics w)"
    by (simp add: grows_emit)
  then have "grows w (snd (ping_status system (run_outcome te) PING_HOST 3 (emit ReadMetrics w)))"
    by (rule grows_trans) (rule grows_ping_status)
  then show ?thesis
    by (auto simp: get_system_info_def Let_def split: prod.splits sum.splits)
qed

lemma grows_insert_log: "grows w (snd (insert_log writable en w))"
  using insert_log_cases [of writable en w]
proof (elim disjE exE conjE)
  fix x assume "insert_log writable en w = (Inl x, w)"
  then show ?thesis by (simp add: grows_refl)
next
  fix t
  assume t: "db w = Some t" and nn: "\<not> has_null en"
    and ins: "insert_log writable en w =
      (Inr (), (emit (Execute (InsertInto en)) w)
         \<lparr>db := Some \<lparr>rows = rows t @ [mk_row (largest_id t + 1) en],
                       autoinc = largest_id t + 1\<rparr>\<rparr>)"
  show ?thesis
    unfolding ins
    by (rule growsI [of _ _ "[mk_row (largest_id t + 1) en]" "[Execute (InsertInto en)]"])
      (simp_all add: stored_def t events_emit populated_mk_row [OF nn])
qed

lemma grows_time_sleep: "grows w (snd (time_sleep secs sigint w))"
  by (simp add: time_sleep_def grows_refl grows_emit)

lemma grows_loop_body: "grows w (snd (loop_body n itv e i w))"
proof -
  obtain r1 w1 where g: "get_system_info (platform_system e) (tick e i) w = (r1, w1)"
    by (cases "get_system_info (platform_system e) (tick e i) w")
  have g1: "grows w w1"
    using grows_get_system_info [of w "platform_system e" "tick e i"] g by simp
  show ?thesis
  proof (cases r1)
    case (Inl x)
    with g g1 show ?thesis by (simp add: loop_body_def)
  next
    case (Inr en)
    obtain r2 w2 where i: "insert_log (db_writable (tick e i)) en w1 = (r2, w2)"
      by (cases "insert_log (db_writable (tick e i)) en w1")
    have g2: "grows w w2"
      using grows_insert_log [of w1 "db_writable (tick e i)" en] i g1
      by (auto intro: grows_trans)
    show ?thesis
    proof (cases r2)
      case (Inl x)
      with g Inr i g2 show ?thesis by (simp add: loop_body_def)
    next
      case Inr2: (Inr u)
      show ?thesis
      proof (cases "format_logged (int i + 1) n en")
        case (Inl x)
        with g Inr i Inr2 g2 show ?thesis by (simp add: loop_body_def)
      next
        case Inr3: (Inr p)
        then have "\<not> is_report (Print p)"
          by (cases en) (auto simp: format_logged_def split: if_splits)
        then have g3: "grows w (emit (Print p) w2)"
          using g2 by (rule grows_emit_after [rotated])
        then have "grows w (snd (time_sleep itv (sigint_in_sleep (tick e i)) (emit (Print p) w2)))"
          by (rule grows_trans) (rule grows_time_sleep)
        with g Inr i Inr2 Inr3 g3 show ?thesis
          by (simp add: loop_body_def Let_def)
      qed
    qed
  qed
qed

lemma grows_sampling_loop: "grows w (snd (sampling_loop n itv e is w))"
proof (induction "is" arbitrary: w)
  case Nil
  show ?case by (simp add: grows_refl)
next
  case (Cons i "is")
  obtain r w1 where b: "loop_body n itv e i w = (r, w1)"
    by (cases "loop_body n itv e i w")
  have g1: "grows w w1"
    using grows_loop_body [of w n itv e i] b by simp
  show ?case
  proof (cases r)
    case (Inl x)
    with b g1 show ?thesis by simp
  next
    case (Inr u)
    have "grows w (snd (sampling_loop n itv e is w1))"
      using g1 Cons.IH [of w1] by (rule grows_trans)
    with b Inr show ?thesis by simp
  qed
qed

lemma grows_print_rows: "grows w (snd (print_rows rs w))"
proof (induction rs arbitrary: w)
  case Nil
  show ?case by (simp add: grows_refl)
next
  case (Cons r rs)
  show ?case
  proof (cases "format_row r")
    case (Inl x)
    then show ?thesis by (simp add: grows_refl)
  next
    case (Inr p)
    then have "\<not> is_report (Print p)"
      by (auto simp: format_row_def split: if_splits)
    then have "grows w (emit (Print p) w)"
      by (rule grows_emit)
    then have "grows w (snd (print_rows rs (emit (Print p) w)))"
      using Cons.IH by (rule grows_trans)
    with Inr show ?thesis by simp
  qed
qed

lemma db_print_rows: "db (snd (print_rows rs w)) = db w"
  by (induction rs arbitrary: w) (auto simp: db_emit split: sum.splits)

lemma print_rows_populated:
  "list_all populated rs \<Longrightarrow> fst (print_rows rs w) = Inr ()"
  by (induction rs arbitrary: w) (auto simp: populated_def format_row_def)

lemma fetch_last_logs_cases:
  "(\<exists>x. fetch_last_logs b k w = (Inl x, w))
   \<or> (\<exists>t. db w = Some t \<and>
         fetch_last_logs b k w =
           (Inr (sql_limit k (order_by_id_desc (rows t))), emit (Execute (SelectLast k)) w))"
  by (cases "db w") (auto simp: fetch_last_logs_def)

lemma fetch_failed_pings_cases:
  "(\<exists>x. fetch_failed_pings b w = (Inl x, w))
   \<or> (\<exists>t. db w = Some t \<and>
         fetch_failed_pings b w =
           (Inr (order_by_id_desc (filter (\<lambda>r. row_ping_status r = Some ''DOWN'') (rows t))),
            emit (Execute SelectDown) w))"
  by (cases "db w") (auto simp: fetch_failed_pings_def)

lemma db_show_last_logs: "db (snd (show_last_logs b k w)) = db w"
  using fetch_last_logs_cases [of b k w]
  by (auto simp: show_last_logs_def Let_def db_emit db_print_rows)

lemma db_show_failed_pings: "db (snd (show_failed_pings b w)) = db w"
  using fetch_failed_pings_cases [of b w]
  by (auto simp: show_failed_pings_def Let_def db_emit db_print_rows)

lemma stored_cong: "db w' = db w \<Longrightarrow> stored w' = stored w"
  by (simp add: stored_def)

text \<open>The effects of a report: none that counts when it fails to query, else its two marks.\<close>

lemma show_last_logs_events:
  "\<exists>evs. events (snd (show_last_logs b k w)) = events w @ evs
     \<and> (filter is_report evs = [] \<and> fst (show_last_logs b k w) \<noteq> Inr ()
        \<or> filter is_report evs = [Execute (SelectLast k), Print (PLastHeader k)])"
  using fetch_last_logs_cases [of b k w]
proof (elim disjE exE conjE)
  fix x assume "fetch_last_logs b k w = (Inl x, w)"
  then have "show_last_logs b k w = (Inl x, w)"
    by (simp add: show_last_logs_def)
  then show ?thesis by simp
next
  fix t
  let ?rs = "sql_limit k (order_by_id_desc (rows t))"
  let ?w2 = "emit (Print (PLastHeader k)) (emit (Execute (SelectLast k)) w)"
  assume f: "fetch_last_logs b k w = (Inr ?rs, emit (Execute (SelectLast k)) w)"
  from grows_print_rows [of ?w2 ?rs] obtain evs where
    evs: "events (snd (print_rows ?rs ?w2)) = events ?w2 @ evs" "filter is_report evs = []"
    by (rule growsE)
  show ?thesis
  proof (cases "?rs = []")
    case True
    with f have "events (snd (show_last_logs b k w)) =
        events w @ [Execute (SelectLast k), Print (PLastHeader k), Print PNoData]"
      by (simp add: show_last_logs_def Let_def events_emit)
    then show ?thesis by simp
  next
    case False
    with f evs have "events (snd (show_last_logs b k w)) =
        events w @ [Execute (SelectLast k), Print (PLastHeader k)] @ evs"
      by (simp add: show_last_logs_def Let_def events_emit)
    with evs(2) show ?thesis by simp
  qed
qed

lemma show_last_logs_populated:
  assumes "b" and "db w \<noteq> None" and "list_all populated (stored w)"
    and "MIN_ROWID \<le> k" and "k \<le> MAX_ROWID"
  shows "fst (show_last_logs b k w) = Inr ()"
proof -
  from assms(2) obtain t where t: "db w = Some t" by auto
  let ?rs = "sql_limit k (order_by_id_desc (rows t))"
  have "set ?rs \<subseteq> set (rows t)"
    using set_sql_limit [of k "order_by_id_desc (rows t)"] by (simp add: set_order_by_id_desc)
  then have "list_all populated ?rs"
    using assms(3) t by (auto simp: stored_def list_all_iff)
  then show ?thesis
    using assms(1) fetch_last_logs_ok [OF t assms(4,5)]
    by (simp add: show_last_logs_def Let_def print_rows_populated)
qed

lemma main_with_started:
  assumes "init_writable e"
  shows "main_with n itv e w =
           (case sampling_loop n itv e (py_range n) (started n itv w) of
              (Inl x, w3) \<Rightarrow> (Inl x, w3)
            | (Inr _, w3) \<Rightarrow> show_last_logs (report_readable e) 5 w3)"
proof -
  have "emit (Print (PCollecting n itv))
          ((emit (Execute CreateTableIfNotExists) (emit (Print PInitializing) w))
             \<lparr>db := (case db (emit (Execute CreateTableIfNotExists) (emit (Print PInitializing) w)) of
                       None \<Rightarrow> Some empty_table | Some t \<Rightarrow> Some t)\<rparr>)
        = started n itv w"
    by (simp add: started_def startup_events_def emit_def split: option.splits)
  then show ?thesis
    using assms by (simp add: main_with_def init_db_def Let_def)
qed

lemma main_with_unwritable:
  assumes "\<not> init_writable e"
  shows "main_with n itv e w = (Inl OperationalError, emit (Print PInitializing) w)"
  using assms by (simp add: main_with_def init_db_def Let_def)

lemma stored_started: "stored (started n itv w) = stored w"
  by (simp add: started_def stored_def empty_table_def split: option.splits)

lemma events_started: "events (started n itv w) = events w @ startup_events n itv"
  by (simp add: started_def)

lemma top_id_started: "top_id (started n itv w) = top_id w"
  by (simp add: started_def top_id_def empty_table_def largest_id_def split: option.splits)

lemma db_started: "db (started n itv w) \<noteq> None"
  by (simp add: started_def)

lemma grows_started: "grows w (started n itv w)"
  by (rule growsI [of _ _ "[]" "startup_events n itv"])
    (simp_all add: stored_started events_started startup_events_def)

text \<open>What \<open>main_with\<close> does to the store and which reports it calls, in every environment.\<close>

lemma main_with_effects:
  "\<exists>new evs. stored (snd (main_with n itv e w)) = stored w @ new \<and> list_all populated new
     \<and> events (snd (main_with n itv e w)) = events w @ evs
     \<and> (filter is_report evs = [] \<and> fst (main_with n itv e w) \<noteq> Inr ()
        \<or> filter is_report evs = [Execute (SelectLast 5), Print (PLastHeader 5)])"
proof (cases "init_writable e")
  case False
  have "stored (snd (main_with n itv e w)) = stored w @ []" "list_all populated []"
    "events (snd (main_with n itv e w)) = events w @ [Print PInitializing]"
    "filter is_report [Print PInitializing] = [] \<and> fst (main_with n itv e w) \<noteq> Inr ()"
    by (simp_all add: main_with_unwritable [OF False] stored_emit events_emit)
  then show ?thesis by blast
next
  case True
  obtain r w3 where l: "sampling_loop n itv e (py_range n) (started n itv w) = (r, w3)"
    by (cases "sampling_loop n itv e (py_range n) (started n itv w)")
  have "grows (started n itv w) w3"
    using grows_sampling_loop [of "started n itv w" n itv e "py_range n"] l by simp
  with grows_started have "grows w w3"
    by (rule grows_trans)
  then obtain new evs where g: "stored w3 = stored w @ new" "list_all populated new"
    "events w3 = events w @ evs" "filter is_report evs = []"
    by (rule growsE)
  show ?thesis
  proof (cases r)
    case (Inl x)
    then have "main_with n itv e w = (Inl x, w3)"
      by (simp add: main_with_started [OF True] l)
    then have "stored (snd (main_with n itv e w)) = stored w @ new"
      "events (snd (main_with n itv e w)) = events w @ evs"
      "filter is_report evs = [] \<and> fst (main_with n itv e w) \<noteq> Inr ()"
      using g by simp_all
    then show ?thesis using g(2) by blast
  next
    case (Inr u)
    then have m: "main_with n itv e w = show_last_logs (report_readable e) 5 w3"
      by (simp add: main_with_started [OF True] l)
    from show_last_logs_events [of "report_readable e" 5 w3] obtain evs' where
      e': "events (snd (show_last_logs (report_readable e) 5 w3)) = events w3 @ evs'"
      "filter is_report evs' = [] \<and> fst (show_last_logs (report_readable e) 5 w3) \<noteq> Inr ()
        \<or> filter is_report evs' = [Execute (SelectLast 5), Print (PLastHeader 5)]"
      by blast
    have "stored (snd (show_last_logs (report_readable e) 5 w3)) = stored w3"
      by (rule stored_cong) (rule db_show_last_logs)
    then have "stored (snd (main_with n itv e w)) = stored w @ new"
      by (simp add: m g(1))
    moreover have "events (snd (main_with n itv e w)) = events w @ (evs @ evs')"
      by (simp add: m e'(1) g(3))
    moreover have "filter is_report (evs @ evs') = [] \<and> fst (main_with n itv e w) \<noteq> Inr ()
        \<or> filter is_report (evs @ evs') = [Execute (SelectLast 5), Print (PLastHeader 5)]"
      using e'(2) g(4) by (simp add: m)
    ultimately show ?thesis
      using g(2) by blast
  qed
qed

lemma script_with_cases:
  "(fst (main_with n itv e w) = Inl KeyboardInterrupt
      \<and> script_with n itv e w = (Inr (), emit (Print PInterrupted) (snd (main_with n itv e w))))
   \<or> (fst (main_with n itv e w) \<noteq> Inl KeyboardInterrupt
      \<and> script_with n itv e w = main_with n itv e w)"
  by (cases "main_with n itv e w") (auto simp: script_with_def split: sum.splits)

lemma script_with_effects:
  "\<exists>new evs. stored (snd (script_with n itv e w)) = stored w @ new \<and> list_all populated new
     \<and> events (snd (script_with n itv e w)) = events w @ evs
     \<and> (filter is_report evs = []
        \<or> filter is_report evs = [Execute (SelectLast 5), Print (PLastHeader 5)])"
proof -
  from main_with_effects [of n itv e w] obtain new evs where
    m: "stored (snd (main_with n itv e w)) = stored w @ new" "list_all populated new"
    "events (snd (main_with n itv e w)) = events w @ evs"
    "filter is_report evs = [] \<and> fst (main_with n itv e w) \<noteq> Inr ()
        \<or> filter is_report evs = [Execute (SelectLast 5), Print (PLastHeader 5)]"
    by blast
  from script_with_cases [of n itv e w] show ?thesis
  proof (elim disjE conjE)
    assume i: "fst (main_with n itv e w) = Inl KeyboardInterrupt"
      and s: "script_with n itv e w = (Inr (), emit (Print PInterrupted) (snd (main_with n itv e w)))"
    have "events (snd (script_with n itv e w)) = events w @ (evs @ [Print PInterrupted])"
      by (simp add: s events_emit m(3))
    moreover have "stored (snd (script_with n itv e w)) = stored w @ new"
      by (simp add: s stored_emit m(1))
    moreover have "filter is_report (evs @ [Print PInterrupted]) = []
        \<or> filter is_report (evs @ [Print PInterrupted]) = [Execute (SelectLast 5), Print (PLastHeader 5)]"
      using m(4) by (elim disjE conjE) simp_all
    ultimately show ?thesis using m(2) by blast
  next
    assume "script_with n itv e w = main_with n itv e w"
    then have "stored (snd (script_with n itv e w)) = stored w @ new"
      "events (snd (script_with n itv e w)) = events w @ evs"
      "filter is_report evs = []
        \<or> filter is_report evs = [Execute (SelectLast 5), Print (PLastHeader 5)]"
      using m by auto
    then show ?thesis using m(2) by blast
  qed
qed

lemma py_range_split:
  assumes "j < nat n"
  shows "py_range n = [0..<j] @ j # [Suc j..<nat n]"
proof -
  have "[0..<nat n] = [0..<j] @ [j..<nat n]"
    using assms by (metis le_add_diff_inverse less_imp_le_nat upt_add_eq_append zero_le)
  then show ?thesis
    using assms by (simp add: py_range_def upt_conv_Cons)
qed

lemma loop_stops:
  assumes "sampling_loop n itv e [0..<j] w = (Inr u, w3)"
    and "loop_body n itv e j w3 = (Inl x, w4)" and "j < nat n"
  shows "sampling_loop n itv e (py_range n) w = (Inl x, w4)"
  using assms by (simp add: py_range_split sampling_loop_append)

lemma top_id_returns:
  assumes "sampling_loop n itv e [0..<m] w = (Inr u, w')" and "db w \<noteq> None"
  shows "db w' \<noteq> None \<and> top_id w' = top_id w + int m"
  using sampling_loop_returns [OF assms(1)] assms(2) by (auto simp: top_id_def)

lemma loop_prefix_calm:
  assumes "\<forall>i<j. calm_tick e i" and "db w \<noteq> None" and "top_id w + int j \<le> MAX_ROWID"
    and "0 \<le> itv"
  obtains w3 where "sampling_loop n itv e [0..<j] w = (Inr (), w3)"
    and "events w3 = events w @ concat (map (tick_events n itv e) [0..<j])"
    and "stored w3 = stored w @ expected_rows e (top_id w) j"
    and "db w3 \<noteq> None" and "top_id w3 = top_id w + int j"
proof -
  from assms(2) obtain t where t: "db w = Some t" by auto
  have "fst (sampling_loop n itv e [0..<j] w) = Inr ()"
    using assms t by (intro sampling_loop_calm [of j e w t]) (simp_all add: top_id_def)
  then obtain w3 where run: "sampling_loop n itv e [0..<j] w = (Inr (), w3)"
    by (cases "sampling_loop n itv e [0..<j] w") auto
  show thesis
    using that [OF run] sampling_loop_returns [OF run] stored_returns [OF run]
      top_id_returns [OF run assms(2)]
    by blast
qed

lemma loop_body_sigint:
  assumes "sampled_tick e j" and "db_writable (tick e j)" and "sigint_in_sleep (tick e j)"
    and "int j + 1 < n" and "0 \<le> itv" and "db w \<noteq> None" and "top_id w \<noteq> MAX_ROWID"
  shows "\<exists>w4. loop_body n itv e j w = (Inl KeyboardInterrupt, w4)
           \<and> events w4 = events w @ tick_events n itv e j
           \<and> stored w4 = stored w @ [mk_row (top_id w + 1) (tick_entry e j)]"
proof -
  from assms(6) obtain t where t: "db w = Some t" by auto
  let ?w1 = "emit (Run (ping_cmd (platform_system e) PING_HOST) 3) (emit ReadMetrics w)"
  have t1: "db ?w1 = Some t" by (simp add: db_emit t)
  have l: "largest_id t \<noteq> MAX_ROWID" using assms(7) t by (simp add: top_id_def)
  note ins = insert_log_ok [OF assms(2) t1 l has_null_tick_entry [of e j]]
  have "loop_body n itv e j w =
      (Inl KeyboardInterrupt,
       emit (Sleep itv) (emit (Print (PLogged (int j + 1) n (tick_entry e j)))
         ((emit (Execute (InsertInto (tick_entry e j))) ?w1)
            \<lparr>db := Some \<lparr>rows = rows t @ [mk_row (largest_id t + 1) (tick_entry e j)],
                          autoinc = largest_id t + 1\<rparr>\<rparr>)))"
    using assms(1,3,4,5)
    by (simp add: loop_body_def get_system_info_sampled ins format_logged_tick_entry Let_def
        time_sleep_def)
  then show ?thesis
    using assms(4) t
    by (simp add: tick_events_def sampled_events_def events_emit db_emit stored_def
        top_id_def)
qed

lemma loop_body_unwritable:
  assumes "sampled_tick e j" and "\<not> db_writable (tick e j)"
  shows "\<exists>w4. loop_body n itv e j w = (Inl OperationalError, w4)
           \<and> events w4 = events w @ sampled_events e j \<and> stored w4 = stored w"
  using assms
  by (simp add: loop_body_def get_system_info_sampled insert_log_def sampled_events_def
      events_emit stored_emit)

lemma list_all_populated_expected_rows: "list_all populated (expected_rows e b m)"
  by (simp add: expected_rows_def list_all_iff populated_mk_row has_null_tick_entry)

lemma main_with_returns:
  assumes "fst (main_with n itv e w) = Inr ()"
  shows "stored (snd (main_with n itv e w)) = stored w @ expected_rows e (top_id w) (nat n)"
proof -
  have wr: "init_writable e"
    using assms main_with_unwritable [of e n itv w] by (cases "init_writable e") auto
  obtain r w3 where l: "sampling_loop n itv e [0..<nat n] (started n itv w) = (r, w3)"
    by (cases "sampling_loop n itv e [0..<nat n] (started n itv w)")
  with assms obtain u where r: "r = Inr u"
    by (cases r) (auto simp: main_with_started [OF wr] py_range_def)
  have m: "main_with n itv e w = show_last_logs (report_readable e) 5 w3"
    using l r by (simp add: main_with_started [OF wr] py_range_def)
  have "stored (snd (show_last_logs (report_readable e) 5 w3)) = stored w3"
    by (rule stored_cong) (rule db_show_last_logs)
  then show ?thesis
    using stored_returns [OF l [unfolded r]]
    by (simp add: m stored_started top_id_started)
qed

lemma main_with_calm:
  assumes "init_writable e" and "report_readable e" and "\<forall>i<nat n. calm_tick e i"
    and "0 \<le> n" and "0 \<le> itv" and "top_id w + n \<le> MAX_ROWID"
    and "list_all populated (stored w)"
  shows "fst (main_with n itv e w) = Inr ()"
proof -
  have "top_id (started n itv w) + int (nat n) \<le> MAX_ROWID"
    using assms(4,6) by (simp add: top_id_started)
  from loop_prefix_calm [OF assms(3) db_started this assms(5), of n] obtain w3 where
    run: "sampling_loop n itv e [0..<nat n] (started n itv w) = (Inr (), w3)"
    and st: "stored w3 = stored (started n itv w) @ expected_rows e (top_id (started n itv w)) (nat n)"
    and db3: "db w3 \<noteq> None"
    by metis
  have "list_all populated (stored w3)"
    using assms(7) by (simp add: st stored_started list_all_populated_expected_rows)
  then have "fst (show_last_logs (report_readable e) 5 w3) = Inr ()"
    using assms(2) db3
    by (intro show_last_logs_populated) (simp_all add: MIN_ROWID_def MAX_ROWID_def)
  then show ?thesis
    using run by (simp add: main_with_started [OF assms(1)] py_range_def)
qed

lemma get_system_info_entry:
  assumes "fst (get_system_info system te w) = Inr en"
  shows "en = (Some (now te), Some (cpu_percent te), Some (virtual_memory_percent te),
               Some (disk_usage_percent te),
               Some (expected_status (run_outcome te (ping_cmd system PING_HOST) 3)))"
  using assms
  by (cases "run_outcome te (ping_cmd system PING_HOST) 3")
    (auto simp: get_system_info_def ping_status_eq expected_status_def Let_def split: if_splits)

lemma grows_prefix:
  assumes "grows w w'"
  shows "prefix (stored w) (stored w')"
    and "list_all populated (drop (length (stored w)) (stored w'))"
  using assms by (simp_all add: grows_def)

lemma grows_script_with:
  "prefix (stored w) (stored (snd (script_with n itv e w)))
   \<and> list_all populated (drop (length (stored w)) (stored (snd (script_with n itv e w))))"
proof -
  from script_with_effects [of n itv e w] obtain new where
    "stored (snd (script_with n itv e w)) = stored w @ new" "list_all populated new"
    by blast
  then show ?thesis by simp
qed

section \<open>Stored samples\<close>

text \<open>
  Claim C5. Every sample the program stores has its five data fields populated, and a stored
  sample is never changed or removed. \<open>get_system_info\<close> returns no \<^verbatim>\<open>None\<close>, and its
  status is \<open>UP\<close> or \<open>DOWN\<close>: \<open>DOWN\<close> whenever the probe fails by timeout, by a non-zero
  exit code or because the command is missing. \<open>insert_log\<close> succeeds only on parameters
  without \<^verbatim>\<open>None\<close> (the columns are NOT NULL). Every operation of the program keeps the
  rows of the store in place and unchanged: \<open>init_db\<close> and the two reports leave the rows
  as they are, \<open>insert_log\<close> and the whole script only append, and every row they append is
  populated.
\<close>

theorem stored_samples_populated_and_kept:
  "(fst (get_system_info system te w) = Inr en \<longrightarrow>
      \<not> has_null en
      \<and> (snd (snd (snd (snd en))) = Some ''UP'' \<or> snd (snd (snd (snd en))) = Some ''DOWN''))
   \<and> (run_outcome te (ping_cmd system PING_HOST) 3 = TimedOut
        \<or> run_outcome te (ping_cmd system PING_HOST) 3 = NotFound
        \<or> (\<exists>c. c \<noteq> 0 \<and> run_outcome te (ping_cmd system PING_HOST) 3 = Exited c) \<longrightarrow>
      fst (get_system_info system te w) =
        Inr (Some (now te), Some (cpu_percent te), Some (virtual_memory_percent te),
             Some (disk_usage_percent te), Some ''DOWN''))
   \<and> (fst (insert_log writable en w) = Inr () \<longrightarrow> \<not> has_null en)
   \<and> prefix (stored w) (stored (snd (insert_log writable en w)))
   \<and> list_all populated (drop (length (stored w)) (stored (snd (insert_log writable en w))))
   \<and> stored (snd (init_db writable w)) = stored w
   \<and> stored (snd (show_last_logs readable k w)) = stored w
   \<and> stored (snd (show_failed_pings readable w)) = stored w
   \<and> prefix (stored w) (stored (snd (script_with n itv e w)))
   \<and> list_all populated (drop (length (stored w)) (stored (snd (script_with n itv e w))))
   \<and> (list_all populated (stored w) \<longrightarrow>
        list_all populated (stored (snd (script_with n itv e w))))"
proof -
  let ?oc = "run_outcome te (ping_cmd system PING_HOST) 3"
  have sample: "fst (get_system_info system te w) = Inr en \<longrightarrow>
      \<not> has_null en
      \<and> (snd (snd (snd (snd en))) = Some ''UP'' \<or> snd (snd (snd (snd en))) = Some ''DOWN'')"
  proof
    assume "fst (get_system_info system te w) = Inr en"
    from get_system_info_entry [OF this] show "\<not> has_null en
      \<and> (snd (snd (snd (snd en))) = Some ''UP'' \<or> snd (snd (snd (snd en))) = Some ''DOWN'')"
      by (simp add: has_null_def expected_status_def)
  qed
  have down: "?oc = TimedOut \<or> ?oc = NotFound \<or> (\<exists>c. c \<noteq> 0 \<and> ?oc = Exited c) \<longrightarrow>
      fst (get_system_info system te w) =
        Inr (Some (now te), Some (cpu_percent te), Some (virtual_memory_percent te),
             Some (disk_usage_percent te), Some ''DOWN'')"
    by (auto simp: get_system_info_def ping_status_eq Let_def)
  have notnull: "fst (insert_log writable en w) = Inr () \<longrightarrow> \<not> has_null en"
    using insert_log_cases [of writable en w] by auto
  have ins: "prefix (stored w) (stored (snd (insert_log writable en w)))"
    "list_all populated (drop (length (stored w)) (stored (snd (insert_log writable en w))))"
    using grows_insert_log [of w writable en] by (rule grows_prefix)+
  have init: "stored (snd (init_db writable w)) = stored w"
    by (simp add: init_db_def Let_def stored_def db_emit empty_table_def split: option.splits)
  have rep: "stored (snd (show_last_logs readable k w)) = stored w"
    "stored (snd (show_failed_pings readable w)) = stored w"
    by (rule stored_cong, rule db_show_last_logs) (rule stored_cong, rule db_show_failed_pings)
  note run = grows_script_with [of w n itv e]
  have all: "list_all populated (stored w) \<longrightarrow>
        list_all populated (stored (snd (script_with n itv e w)))"
  proof
    assume old: "list_all populated (stored w)"
    from script_with_effects [of n itv e w] obtain new where
      "stored (snd (script_with n itv e w)) = stored w @ new" "list_all populated new"
      by blast
    with old show "list_all populated (stored (snd (script_with n itv e w)))" by simp
  qed
  show ?thesis
    using sample down notnull ins init rep run all by blast
qed

lemma down_env_calm: "calm_tick down_env i"
  by (simp add: calm_tick_def sampled_tick_def down_env_def example_tick_def)

lemma example_env_calm: "calm_tick example_env i"
  by (simp add: calm_tick_def sampled_tick_def example_env_def example_tick_def)

lemma fresh_world_facts:
  "stored fresh_world = []" "events fresh_world = []" "top_id fresh_world = 0"
  by (simp_all add: fresh_world_def stored_def top_id_def)

theorem stored_samples_populated_and_kept_witness:
  "fst (get_system_info ''Linux'' (tick down_env 0) fresh_world) =
     Inr (Some ''2025-11-04 10:00:00'', Some 12.5, Some 40, Some 71, Some ''DOWN'')
   \<and> fst (insert_log True (Some ''2025-11-04 10:00:00'', None, Some 40, Some 71, Some ''UP'')
          empty_world) \<noteq> Inr ()
   \<and> list_all populated (stored one_row_world)
   \<and> prefix (stored one_row_world) (stored (snd (script_with 2 0 down_env one_row_world)))
   \<and> list_all populated (stored (snd (script_with 2 0 down_env one_row_world)))
   \<and> map row_ping_status (stored (snd (script_with 2 0 down_env fresh_world))) =
       [Some ''DOWN'', Some ''DOWN'']"
proof -
  have oc: "run_outcome (tick down_env 0) (ping_cmd ''Linux'' PING_HOST) 3 = TimedOut"
    by (simp add: down_env_def example_tick_def)
  have pop1: "list_all populated (stored one_row_world)"
    by (simp add: one_row_world_def stored_def populated_mk_row has_null_tick_entry)
  have nul: "has_null (Some ''2025-11-04 10:00:00'', None, Some 40, Some 71, Some ''UP'')"
    by (simp add: has_null_def)
  have ok: "fst (main_with 2 0 down_env fresh_world) = Inr ()"
    by (rule main_with_calm)
      (simp_all add: down_env_calm fresh_world_facts MAX_ROWID_def, simp_all add: down_env_def)
  then have "script_with 2 0 down_env fresh_world = main_with 2 0 down_env fresh_world"
    using script_with_cases [of 2 0 down_env fresh_world] by auto
  then have "stored (snd (script_with 2 0 down_env fresh_world)) = expected_rows down_env 0 (nat 2)"
    using main_with_returns [OF ok] by (simp add: fresh_world_facts)
  moreover have "[0..<nat 2] = [0, 1]"
    by (simp add: upt_rec)
  ultimately have rows2: "map row_ping_status (stored (snd (script_with 2 0 down_env fresh_world))) =
       [Some ''DOWN'', Some ''DOWN'']"
    by (simp add: expected_rows_def mk_row_def tick_entry_def Let_def expected_status_def
        down_env_def example_tick_def)
  note inst = stored_samples_populated_and_kept [where system = "''Linux''" and te = "tick down_env 0"
      and w = fresh_world and writable = True and n = 2 and itv = 0 and e = down_env]
    stored_samples_populated_and_kept [where w = empty_world and writable = True
      and en = "(Some ''2025-11-04 10:00:00'', None, Some 40, Some 71, Some ''UP'')"]
    stored_samples_populated_and_kept [where w = one_row_world and n = 2 and itv = 0 and e = down_env]
  show ?thesis
    using inst oc pop1 nul rows2
    by (simp add: down_env_def example_tick_def)
qed

section \<open>Interrupts and storage errors\<close>

text \<open>
  Claim C6. When the interrupt signal arrives in the sleep between sample \<open>j + 1\<close> and the
  next one (the ticks before were not disturbed, and tick \<open>j\<close> took and stored its sample),
  \<open>main\<close> ends with \<^verbatim>\<open>KeyboardInterrupt\<close>, which the script catches: it prints the notice
  as its last effect and exits cleanly. The store then holds its former rows, unchanged,
  followed by exactly \<open>j + 1\<close> new rows, each populated; no further tick and no report has
  run.
\<close>

theorem script_interrupted_between_samples:
  assumes "init_writable e" and "\<forall>i<j. calm_tick e i"
    and "sampled_tick e j" and "db_writable (tick e j)" and "sigint_in_sleep (tick e j)"
    and "int j + 1 < n" and "0 \<le> itv" and "top_id w + int j < MAX_ROWID"
  shows "fst (main_with n itv e w) = Inl KeyboardInterrupt
         \<and> fst (script_with n itv e w) = Inr ()
         \<and> stored (snd (script_with n itv e w)) = stored w @ expected_rows e (top_id w) (Suc j)
         \<and> length (stored (snd (script_with n itv e w))) = length (stored w) + Suc j
         \<and> list_all populated (expected_rows e (top_id w) (Suc j))
         \<and> events (snd (script_with n itv e w)) =
             events w @ startup_events n itv
             @ concat (map (tick_events n itv e) [0..<Suc j]) @ [Print PInterrupted]"
proof -
  let ?s = "started n itv w"
  have "top_id ?s + int j \<le> MAX_ROWID"
    using assms(8) by (simp add: top_id_started)
  from loop_prefix_calm [OF assms(2) db_started this assms(7), of n] obtain w3 where
    run: "sampling_loop n itv e [0..<j] ?s = (Inr (), w3)"
    and ev3: "events w3 = events ?s @ concat (map (tick_events n itv e) [0..<j])"
    and st3: "stored w3 = stored ?s @ expected_rows e (top_id ?s) j"
    and db3: "db w3 \<noteq> None" and top3: "top_id w3 = top_id ?s + int j"
    by metis
  have "top_id w3 \<noteq> MAX_ROWID"
    using assms(8) by (simp add: top3 top_id_started)
  from loop_body_sigint [OF assms(3,4,5,6,7) db3 this] obtain w4 where
    body: "loop_body n itv e j w3 = (Inl KeyboardInterrupt, w4)"
    and ev4: "events w4 = events w3 @ tick_events n itv e j"
    and st4: "stored w4 = stored w3 @ [mk_row (top_id w3 + 1) (tick_entry e j)]"
    by blast
  have "j < nat n" using assms(6) by simp
  from loop_stops [OF run body this]
  have m: "main_with n itv e w = (Inl KeyboardInterrupt, w4)"
    by (simp add: main_with_started [OF assms(1)])
  then have s: "script_with n itv e w = (Inr (), emit (Print PInterrupted) w4)"
    by (simp add: script_with_def)
  have st: "stored w4 = stored w @ expected_rows e (top_id w) (Suc j)"
    by (simp add: st4 st3 top3 stored_started top_id_started expected_rows_Suc)
  have ev: "events w4 = events w @ startup_events n itv
      @ concat (map (tick_events n itv e) [0..<Suc j])"
    by (simp add: ev4 ev3 events_started)
  show ?thesis
    using m
    by (simp add: s stored_emit events_emit st ev length_expected_rows
        list_all_populated_expected_rows)
qed

lemma interrupted_env_facts:
  "init_writable interrupted_env" "\<forall>i<1. calm_tick interrupted_env i"
  "sampled_tick interrupted_env 1" "db_writable (tick interrupted_env 1)"
  "sigint_in_sleep (tick interrupted_env 1)"
  by (simp_all add: interrupted_env_def example_env_def example_tick_def calm_tick_def
      sampled_tick_def)

theorem script_interrupted_between_samples_witness:
  "fst (main interrupted_env fresh_world) = Inl KeyboardInterrupt
   \<and> fst (script interrupted_env fresh_world) = Inr ()
   \<and> map row_id (stored (snd (script interrupted_env fresh_world))) = [1, 2]
   \<and> last (events (snd (script interrupted_env fresh_world))) = Print PInterrupted"
proof -
  have pre: "int 1 + 1 < SAMPLES" "0 \<le> INTERVAL_SEC" "top_id fresh_world + int 1 < MAX_ROWID"
    by (simp_all add: SAMPLES_def INTERVAL_SEC_def fresh_world_facts MAX_ROWID_def)
  note inst = script_interrupted_between_samples [OF interrupted_env_facts pre]
  have ids: "map row_id (expected_rows interrupted_env 0 (Suc 1)) = [1, 2]"
    by (simp add: expected_rows_def row_id_mk_row upt_rec)
  show ?thesis
    using inst ids by (simp add: main_def script_def fresh_world_facts)
qed

text \<open>
  Claim C9. A storage error in an insert reaches the top level and ends the run. When the
  insert of tick \<open>j\<close> finds the file unwritable or locked (the ticks before were not
  disturbed), the script ends with the uncaught \<^verbatim>\<open>OperationalError\<close>: the store holds its
  former rows and the \<open>j\<close> rows of the earlier ticks, and the last effects are the sampling
  of tick \<open>j\<close>, with no progress line for it, no later tick, no report and no notice. No
  handler takes the error: \<open>insert_log\<close> never raises \<^verbatim>\<open>KeyboardInterrupt\<close>, the only
  exception the script catches. And no sample is dropped in silence: whenever the script
  exits cleanly, either all \<open>n\<close> samples are in the store or its last effect is the notice
  of the interruption.
\<close>

theorem storage_error_aborts_run:
  assumes "init_writable e" and "\<forall>i<j. calm_tick e i"
    and "sampled_tick e j" and "\<not> db_writable (tick e j)"
    and "j < nat n" and "0 \<le> itv" and "top_id w + int j \<le> MAX_ROWID"
  shows "fst (script_with n itv e w) = Inl OperationalError
         \<and> stored (snd (script_with n itv e w)) = stored w @ expected_rows e (top_id w) j
         \<and> events (snd (script_with n itv e w)) =
             events w @ startup_events n itv
             @ concat (map (tick_events n itv e) [0..<j]) @ sampled_events e j
         \<and> insert_log (db_writable (tick e j)) en w' = (Inl OperationalError, w')
         \<and> fst (insert_log writable en w') \<noteq> Inl KeyboardInterrupt
         \<and> (fst (script_with n' itv' e' w') = Inr () \<longrightarrow>
              length (stored (snd (script_with n' itv' e' w'))) = length (stored w') + nat n'
              \<or> last (events (snd (script_with n' itv' e' w'))) = Print PInterrupted)"
proof -
  let ?s = "started n itv w"
  have "top_id ?s + int j \<le> MAX_ROWID"
    using assms(7) by (simp add: top_id_started)
  from loop_prefix_calm [OF assms(2) db_started this assms(6), of n] obtain w3 where
    run: "sampling_loop n itv e [0..<j] ?s = (Inr (), w3)"
    and ev3: "events w3 = events ?s @ concat (map (tick_events n itv e) [0..<j])"
    and st3: "stored w3 = stored ?s @ expected_rows e (top_id ?s) j"
    by metis
  from loop_body_unwritable [OF assms(3,4)] obtain w4 where
    body: "loop_body n itv e j w3 = (Inl OperationalError, w4)"
    and ev4: "events w4 = events w3 @ sampled_events e j"
    and st4: "stored w4 = stored w3"
    by blast
  from loop_stops [OF run body assms(5)]
  have "main_with n itv e w = (Inl OperationalError, w4)"
    by (simp add: main_with_started [OF assms(1)])
  then have s: "script_with n itv e w = (Inl OperationalError, w4)"
    by (simp add: script_with_def)
  have 1: "fst (script_with n itv e w) = Inl OperationalError
         \<and> stored (snd (script_with n itv e w)) = stored w @ expected_rows e (top_id w) j
         \<and> events (snd (script_with n itv e w)) =
             events w @ startup_events n itv
             @ concat (map (tick_events n itv e) [0..<j]) @ sampled_events e j"
    by (simp add: s st4 st3 ev4 ev3 stored_started top_id_started events_started)
  have 2: "insert_log (db_writable (tick e j)) en w' = (Inl OperationalError, w')"
    using assms(4) by (simp add: insert_log_unwritable)
  have 3: "fst (insert_log writable en w') \<noteq> Inl KeyboardInterrupt"
    using insert_log_cases [of writable en w'] by auto
  have 4: "fst (script_with n' itv' e' w') = Inr () \<longrightarrow>
              length (stored (snd (script_with n' itv' e' w'))) = length (stored w') + nat n'
              \<or> last (events (snd (script_with n' itv' e' w'))) = Print PInterrupted"
  proof
    assume clean: "fst (script_with n' itv' e' w') = Inr ()"
    from script_with_cases [of n' itv' e' w']
    show "length (stored (snd (script_with n' itv' e' w'))) = length (stored w') + nat n'
              \<or> last (events (snd (script_with n' itv' e' w'))) = Print PInterrupted"
    proof (elim disjE conjE)
      assume "script_with n' itv' e' w' =
          (Inr (), emit (Print PInterrupted) (snd (main_with n' itv' e' w')))"
      then show ?thesis by (simp add: events_emit)
    next
      assume eq: "script_with n' itv' e' w' = main_with n' itv' e' w'"
      with clean have "fst (main_with n' itv' e' w') = Inr ()" by simp
      from main_with_returns [OF this] show ?thesis
        by (simp add: eq length_expected_rows)
    qed
  qed
  show ?thesis
    using 1 2 3 4 by blast
qed

lemma locked_env_facts:
  "init_writable locked_env" "\<forall>i<2. calm_tick locked_env i"
  "sampled_tick locked_env 2" "\<not> db_writable (tick locked_env 2)"
  by (simp_all add: locked_env_def example_env_def example_tick_def calm_tick_def
      sampled_tick_def)

theorem storage_error_aborts_run_witness:
  "fst (script locked_env fresh_world) = Inl OperationalError
   \<and> map row_id (stored (snd (script locked_env fresh_world))) = [1, 2]
   \<and> events (snd (script locked_env fresh_world)) =
       startup_events SAMPLES INTERVAL_SEC
       @ tick_events SAMPLES INTERVAL_SEC locked_env 0
       @ tick_events SAMPLES INTERVAL_SEC locked_env 1
       @ sampled_events locked_env 2"
proof -
  have pre: "2 < nat SAMPLES" "0 \<le> INTERVAL_SEC" "top_id fresh_world + int 2 \<le> MAX_ROWID"
    by (simp_all add: SAMPLES_def INTERVAL_SEC_def fresh_world_facts MAX_ROWID_def)
  note inst = storage_error_aborts_run [OF locked_env_facts pre]
  have ids: "map row_id (expected_rows locked_env 0 2) = [1, 2]"
    by (simp add: expected_rows_def row_id_mk_row upt_rec numeral_2_eq_2)
  have upt2: "[0..<2] = [0, 1]"
    by (simp add: upt_rec numeral_2_eq_2)
  show ?thesis
    using inst ids by (simp add: script_def fresh_world_facts upt2)
qed

section \<open>The reports of the entry point\<close>

text \<open>
  Claim C10. Whatever the environment, the script calls no report but the recent-entries
  report with the limit 5, at most once: among the effects it adds, the marks of a report
  (the query and the header of \<open>show_last_logs\<close> and of \<open>show_failed_pings\<close>) are either
  none or the query \<open>SelectLast 5\<close> followed by the header of the last 5 entries; the
  DOWN query and the failed-pings header never occur. When \<open>main\<close> returns normally they
  are exactly that query and that header. This holds for every sample count and interval,
  so for the constants of the script.
\<close>

theorem only_recent_report_runs:
  "(\<exists>evs. events (snd (script_with n itv e w)) = events w @ evs
      \<and> (filter is_report evs = []
         \<or> filter is_report evs = [Execute (SelectLast 5), Print (PLastHeader 5)])
      \<and> Execute SelectDown \<notin> set evs \<and> Print PFailedHeader \<notin> set evs)
   \<and> (fst (main_with n itv e w) = Inr () \<longrightarrow>
        filter is_report (drop (length (events w)) (events (snd (main_with n itv e w)))) =
          [Execute (SelectLast 5), Print (PLastHeader 5)])
   \<and> (fst (main e w) = Inr () \<longrightarrow>
        filter is_report (drop (length (events w)) (events (snd (script e w)))) =
          [Execute (SelectLast 5), Print (PLastHeader 5)])"
proof -
  have never: "Execute SelectDown \<notin> set evs \<and> Print PFailedHeader \<notin> set evs"
    if h: "filter is_report evs = []
         \<or> filter is_report evs = [Execute (SelectLast 5), Print (PLastHeader 5)]" for evs
  proof -
    have marks: "set (filter is_report evs) \<subseteq> {Execute (SelectLast 5), Print (PLastHeader 5)}"
    proof (rule disjE [OF h])
      assume "filter is_report evs = []"
      then show ?thesis by simp
    next
      assume "filter is_report evs = [Execute (SelectLast 5), Print (PLastHeader 5)]"
      then show ?thesis by simp
    qed
    have down: "Execute SelectDown \<notin> set evs"
    proof
      assume "Execute SelectDown \<in> set evs"
      then have "Execute SelectDown \<in> set (filter is_report evs)" by simp
      with marks show False by auto
    qed
    have header: "Print PFailedHeader \<notin> set evs"
    proof
      assume "Print PFailedHeader \<in> set evs"
      then have "Print PFailedHeader \<in> set (filter is_report evs)" by simp
      with marks show False by auto
    qed
    from down header show ?thesis by simp
  qed
  have 1: "\<exists>evs. events (snd (script_with n itv e w)) = events w @ evs
      \<and> (filter is_report evs = []
         \<or> filter is_report evs = [Execute (SelectLast 5), Print (PLastHeader 5)])
      \<and> Execute SelectDown \<notin> set evs \<and> Print PFailedHeader \<notin> set evs"
    using script_with_effects [of n itv e w] never by blast
  have 2: "filter is_report (drop (length (events w)) (events (snd (main_with n itv e w)))) =
          [Execute (SelectLast 5), Print (PLastHeader 5)]"
    if "fst (main_with n itv e w) = Inr ()" for n itv
    using main_with_effects [of n itv e w] that by auto
  have 3: "filter is_report (drop (length (events w)) (events (snd (script e w)))) =
          [Execute (SelectLast 5), Print (PLastHeader 5)]"
    if ok: "fst (main e w) = Inr ()"
  proof -
    have "script e w = main e w"
      using script_with_cases [of SAMPLES INTERVAL_SEC e w] ok
      by (auto simp: script_def main_def)
    with 2 [of SAMPLES INTERVAL_SEC] ok show ?thesis
      by (simp add: main_def)
  qed
  show ?thesis
    using 1 2 3 by blast
qed

theorem only_recent_report_runs_witness:
  "fst (main example_env fresh_world) = Inr ()
   \<and> filter is_report (events (snd (script example_env fresh_world))) =
       [Execute (SelectLast 5), Print (PLastHeader 5)]
   \<and> Execute SelectDown \<notin> set (events (snd (script example_env fresh_world)))"
proof -
  have ok: "fst (main example_env fresh_world) = Inr ()"
    unfolding main_def
    by (rule main_with_calm)
      (simp_all add: example_env_calm fresh_world_facts MAX_ROWID_def SAMPLES_def INTERVAL_SEC_def,
       simp_all add: example_env_def)
  note inst = only_recent_report_runs [of SAMPLES INTERVAL_SEC example_env fresh_world]
  from inst ok have rep: "filter is_report (events (snd (script example_env fresh_world))) =
       [Execute (SelectLast 5), Print (PLastHeader 5)]"
    by (simp add: fresh_world_facts)
  from inst have "Execute SelectDown \<notin> set (events (snd (script example_env fresh_world)))"
    by (auto simp: script_def fresh_world_facts)
  with ok rep show ?thesis by simp
qed

end
